theory Spec2Isabelle
  imports Complex_Main
begin

section \<open>Errors as values\<close>

text \<open>
  The Python exceptions that the modelled code can raise. A computation that may raise
  returns \<open>error + 'a\<close>, with \<open>Inl\<close> for the exception.
\<close>

datatype error = IndexError | ValueError | AttributeError | TypeError | InvalidInput

definition bind_result :: "error + 'a \<Rightarrow> ('a \<Rightarrow> error + 'b) \<Rightarrow> error + 'b" where
  "bind_result m f = (case m of Inl e \<Rightarrow> Inl e | Inr x \<Rightarrow> f x)"

text \<open>A \<open>for\<close> loop (or list comprehension) that collects one value per element and
  stops at the first exception.\<close>

fun mapM :: "('a \<Rightarrow> error + 'b) \<Rightarrow> 'a list \<Rightarrow> error + 'b list" where
  "mapM f [] = Inr []"
| "mapM f (x # xs) =
     bind_result (f x) (\<lambda>y. bind_result (mapM f xs) (\<lambda>ys. Inr (y # ys)))"

text \<open>A \<open>for\<close> loop that updates a state and stops at the first exception.\<close>

fun foldM :: "('s \<Rightarrow> 'a \<Rightarrow> error + 's) \<Rightarrow> 's \<Rightarrow> 'a list \<Rightarrow> error + 's" where
  "foldM f s [] = Inr s"
| "foldM f s (x # xs) = bind_result (f s x) (\<lambda>s'. foldM f s' xs)"

text \<open>Python list indexing \<open>xs[i]\<close>: a negative index counts from the end, an index
  outside \<open>-len .. len-1\<close> raises IndexError. NumPy indexing along one axis behaves
  the same way.\<close>

definition py_get :: "'a list \<Rightarrow> int \<Rightarrow> error + 'a" where
  "py_get xs i =
     (if 0 \<le> i \<and> i < int (length xs) then Inr (xs ! nat i)
      else if - int (length xs) \<le> i \<and> i < 0 then Inr (xs ! nat (int (length xs) + i))
      else Inl IndexError)"

section \<open>Data model\<close>

text \<open>A token carries its surface word and its part-of-speech tag.\<close>

record Token =
  word :: string
  pos :: string

text \<open>
  Modelled from the spec: the class \<open>Indexer\<close> of \<open>utils.py\<close> is not among the sources.
  The spec describes it as a bijection between strings and dense integer ids
  \<open>0..len-1\<close>, built incrementally, the order of first appearance giving the id.
  It is the list of registered objects, an object's id being its position.
  \<open>index_of\<close> answers \<open>-1\<close> for an unregistered object (as \<open>decode\<close> tests
  \<open>word_index == -1\<close>), \<open>get_object\<close> answers \<open>None\<close> for an unused id.
\<close>

type_synonym Indexer = "string list"

fun index_of :: "Indexer \<Rightarrow> string \<Rightarrow> int" where
  "index_of [] obj = -1"
| "index_of (x # xs) obj =
     (if x = obj then 0 else (let r = index_of xs obj in if r = -1 then -1 else r + 1))"

definition contains :: "Indexer \<Rightarrow> string \<Rightarrow> bool" where
  "contains ix obj = (index_of ix obj \<noteq> -1)"

definition get_object :: "Indexer \<Rightarrow> nat \<Rightarrow> string option" where
  "get_object ix idx = (if idx < length ix then Some (ix ! idx) else None)"

definition add_and_get_index :: "Indexer \<Rightarrow> string \<Rightarrow> nat \<times> Indexer" where
  "add_and_get_index ix obj =
     (if index_of ix obj = -1 then (length ix, ix @ [obj])
      else (nat (index_of ix obj), ix))"

text \<open>A \<open>collections.Counter\<close> of word occurrences: every word has a count, \<open>0\<close>
  when it was never seen.\<close>

type_synonym Counter = "string \<Rightarrow> nat"

section \<open>HMM vocabulary: \<open>get_word_index\<close>\<close>

text \<open>
  \<^verbatim>\<open>
  if word_counter[word] < 1.5:
      return word_indexer.add_and_get_index("UNK")
  else:
      return word_indexer.add_and_get_index(word)
  \<close>
  The indexer is mutated by \<open>add_and_get_index\<close>, so the model returns it next to
  the index.
\<close>

definition get_word_index :: "Indexer \<Rightarrow> Counter \<Rightarrow> string \<Rightarrow> nat \<times> Indexer" where
  "get_word_index word_indexer word_counter w =
     (if real (word_counter w) < 1.5 then add_and_get_index word_indexer ''UNK''
      else add_and_get_index word_indexer w)"

section \<open>NumPy and SciPy primitives\<close>

text \<open>
  \<open>np.argmax\<close> on a one-dimensional array: the index of the first occurrence of the
  maximum; an empty array raises ValueError. Scores are real numbers here (the code
  works on floating-point numbers; rounding is not modelled).
\<close>

fun first_max_index :: "real list \<Rightarrow> nat" where
  "first_max_index [] = 0"
| "first_max_index (x # xs) =
     (if xs \<noteq> [] \<and> x < xs ! first_max_index xs then Suc (first_max_index xs) else 0)"

definition np_argmax :: "real list \<Rightarrow> error + nat" where
  "np_argmax xs = (if xs = [] then Inl ValueError else Inr (first_max_index xs))"


section \<open>BIO tags\<close>

text \<open>
  Modelled from the spec: the helpers \<open>isB\<close>, \<open>isI\<close>, \<open>isO\<close> and \<open>get_tag_label\<close> of
  \<open>nerdata.py\<close> are not among the sources. The spec's tags are \<open>B-X\<close> (begin),
  \<open>I-X\<close> (inside) and \<open>O\<close> (outside), \<open>X\<close> being the entity type.
\<close>

definition isB :: "string \<Rightarrow> bool" where
  "isB ner_tag = (take 2 ner_tag = ''B-'')"

definition isI :: "string \<Rightarrow> bool" where
  "isI ner_tag = (take 2 ner_tag = ''I-'')"

definition isO :: "string \<Rightarrow> bool" where
  "isO ner_tag = (ner_tag = ''O'')"

definition get_tag_label :: "string \<Rightarrow> string" where
  "get_tag_label ner_tag = drop 2 ner_tag"

section \<open>The Viterbi loop shared by both decoders\<close>

text \<open>
  \<open>HmmNerModel.decode\<close> and \<open>CrfNerModel.decode\<close> run the same loop; they differ
  only in the three potentials, which the HMM reads from its tables and the CRF asks of
  its scorer. The loop is modelled once, over the three potentials, each of which may
  raise.

  The score matrix is kept column by column: the column of a token is computed from
  the column of the previous token only. \<open>first_column\<close> is the branch
  \<open>token == 0\<close>, \<open>next_column\<close> the \<open>else\<close> branch: for every current tag the
  list \<open>tags_for_i\<close>, its \<open>np.argmax\<close>, the new score and the backpointer.
\<close>

definition first_column ::
  "(nat \<Rightarrow> error + real) \<Rightarrow> (nat \<Rightarrow> nat \<Rightarrow> error + real) \<Rightarrow> nat \<Rightarrow> error + real list" where
  "first_column score_init score_emission num_tags =
     mapM (\<lambda>i. bind_result (score_init i) (\<lambda>a.
               bind_result (score_emission i 0) (\<lambda>b. Inr (a + b))))
          [0..<num_tags]"

definition next_column ::
  "(nat \<Rightarrow> nat \<Rightarrow> error + real) \<Rightarrow> (nat \<Rightarrow> nat \<Rightarrow> error + real) \<Rightarrow> nat \<Rightarrow> real list \<Rightarrow> nat
     \<Rightarrow> error + (real \<times> nat) list" where
  "next_column score_transition score_emission num_tags col token =
     mapM (\<lambda>current_i.
        bind_result
          (mapM (\<lambda>prev_i. bind_result (score_transition prev_i current_i)
                              (\<lambda>t. Inr (col ! prev_i + t)))
                [0..<num_tags]) (\<lambda>tags_for_i.
        bind_result (np_argmax tags_for_i) (\<lambda>best.
        bind_result (score_emission current_i token) (\<lambda>e.
        Inr (tags_for_i ! best + e, best)))))
       [0..<num_tags]"

text \<open>The loop over the tokens: the state is the last column of \<open>matrix\<close> and the
  columns of \<open>prev\<close> filled so far.\<close>

definition trellis_step ::
  "(nat \<Rightarrow> nat \<Rightarrow> error + real) \<Rightarrow> (nat \<Rightarrow> nat \<Rightarrow> error + real) \<Rightarrow> nat
     \<Rightarrow> real list \<times> nat list list \<Rightarrow> nat \<Rightarrow> error + real list \<times> nat list list" where
  "trellis_step score_transition score_emission num_tags st token =
     bind_result (next_column score_transition score_emission num_tags (fst st) token)
       (\<lambda>cells. Inr (map fst cells, snd st @ [map snd cells]))"

definition trellis ::
  "(nat \<Rightarrow> error + real) \<Rightarrow> (nat \<Rightarrow> nat \<Rightarrow> error + real) \<Rightarrow> (nat \<Rightarrow> nat \<Rightarrow> error + real)
     \<Rightarrow> nat \<Rightarrow> nat \<Rightarrow> error + real list \<times> nat list list" where
  "trellis score_init score_transition score_emission num_tags num_words =
     bind_result (first_column score_init score_emission num_tags) (\<lambda>col0.
       foldM (trellis_step score_transition score_emission num_tags) (col0, [])
         [1..<num_words])"

text \<open>The back pass: \<open>best_indices\<close> before it is flipped. The argument is the
  list of the columns of \<open>prev\<close>, last column first, as the loop
  \<open>for i in range(len - 2, -1, -1)\<close> visits them.\<close>

fun back_pass :: "nat list list \<Rightarrow> nat \<Rightarrow> nat list" where
  "back_pass [] last_state = [last_state]"
| "back_pass (p # ps) last_state = last_state # back_pass ps (p ! last_state)"

text \<open>
  The whole loop. For an empty sentence \<open>np.zeros((num_tags, len - 1))\<close> is asked
  for a negative dimension and raises ValueError before anything else happens; with no
  tag at all \<open>np.argmax(matrix, 0)\<close> raises ValueError.
\<close>

definition viterbi ::
  "(nat \<Rightarrow> error + real) \<Rightarrow> (nat \<Rightarrow> nat \<Rightarrow> error + real) \<Rightarrow> (nat \<Rightarrow> nat \<Rightarrow> error + real)
     \<Rightarrow> nat \<Rightarrow> nat \<Rightarrow> error + nat list" where
  "viterbi score_init score_transition score_emission num_tags num_words =
     (if num_words = 0 then Inl ValueError
      else bind_result (trellis score_init score_transition score_emission num_tags num_words)
             (\<lambda>(col, prev). bind_result (np_argmax col) (\<lambda>last_state.
                Inr (rev (back_pass (rev prev) last_state)))))"

section \<open>The HMM decoder\<close>

text \<open>The tables are NumPy arrays: a matrix is the list of its rows.\<close>

record HmmNerModel =
  hmm_tag_indexer :: Indexer
  word_indexer :: Indexer
  init_log_probs :: "real list"
  transition_log_probs :: "real list list"
  emission_log_probs :: "real list list"

text \<open>\<open>word_index\<close> of a token: the word's index, or that of \<open>UNK\<close> for an
  unregistered word (which is \<open>-1\<close> again when the indexer has no \<open>UNK\<close>).\<close>

definition hmm_word_index :: "HmmNerModel \<Rightarrow> Token list \<Rightarrow> nat \<Rightarrow> int" where
  "hmm_word_index m sentence_tokens token =
     (let word_index = index_of (word_indexer m) (word (sentence_tokens ! token))
      in if word_index = -1 then index_of (word_indexer m) ''UNK'' else word_index)"

definition hmm_init :: "HmmNerModel \<Rightarrow> nat \<Rightarrow> error + real" where
  "hmm_init m i = py_get (init_log_probs m) (int i)"

definition hmm_transition :: "HmmNerModel \<Rightarrow> nat \<Rightarrow> nat \<Rightarrow> error + real" where
  "hmm_transition m prev_i current_i =
     bind_result (py_get (transition_log_probs m) (int prev_i))
       (\<lambda>row. py_get row (int current_i))"

definition hmm_emission :: "HmmNerModel \<Rightarrow> Token list \<Rightarrow> nat \<Rightarrow> nat \<Rightarrow> error + real" where
  "hmm_emission m sentence_tokens i token =
     bind_result (py_get (emission_log_probs m) (int i))
       (\<lambda>row. py_get row (hmm_word_index m sentence_tokens token))"

text \<open>
  \<open>HmmNerModel.decode\<close>, up to the list \<open>pred_tags\<close> (an entry is \<open>None\<close> when the tag
  indexer has no such id). The last line hands \<open>pred_tags\<close> to
  \<open>chunks_from_bio_tag_seq\<close>, the chunk extraction of \<open>nerdata.py\<close>, which is not
  among the sources.
\<close>

definition HmmNerModel_decode :: "HmmNerModel \<Rightarrow> Token list \<Rightarrow> error + string option list" where
  "HmmNerModel_decode m sentence_tokens =
     bind_result
       (viterbi (hmm_init m) (hmm_transition m) (hmm_emission m sentence_tokens)
          (length (init_log_probs m)) (length sentence_tokens))
       (\<lambda>best_indices. Inr (map (get_object (hmm_tag_indexer m)) best_indices))"

section \<open>CRF: feature extraction\<close>

text \<open>
  Modelled from the spec: \<open>maybe_add_feature\<close> of \<open>utils.py\<close> is not among the
  sources. The spec's feature extraction registers new feature strings in training mode
  and silently skips unseen features in inference mode.
\<close>

definition maybe_add_feature ::
  "nat list \<Rightarrow> Indexer \<Rightarrow> bool \<Rightarrow> string \<Rightarrow> nat list \<times> Indexer" where
  "maybe_add_feature feats feature_indexer add_to_indexer feat =
     (if add_to_indexer
      then (let (i, ix') = add_and_get_index feature_indexer feat in (feats @ [i], ix'))
      else (if index_of feature_indexer feat \<noteq> -1
            then (feats @ [nat (index_of feature_indexer feat)], feature_indexer)
            else (feats, feature_indexer)))"

text \<open>Python's \<open>repr\<close> on the three offsets, on a truth value and on a list of
  one-character strings; \<open>str.isupper\<close>, \<open>islower\<close>, \<open>isdigit\<close> on one ASCII
  character (strings are byte strings here).\<close>

definition repr_offset :: "int \<Rightarrow> string" where
  "repr_offset idx_offset =
     (if idx_offset = -1 then ''-1'' else if idx_offset = 0 then ''0'' else ''1'')"

definition repr_bool :: "bool \<Rightarrow> string" where
  "repr_bool b = (if b then ''True'' else ''False'')"

fun repr_items :: "string \<Rightarrow> string" where
  "repr_items [] = []"
| "repr_items [c] = [CHR 0x27, c, CHR 0x27]"
| "repr_items (c # cs) = [CHR 0x27, c, CHR 0x27] @ '', '' @ repr_items cs"

definition repr_list :: "string \<Rightarrow> string" where
  "repr_list cs = ''['' @ repr_items cs @ '']''"

definition isupper :: "char \<Rightarrow> bool" where
  "isupper c = (65 \<le> (of_char c :: nat) \<and> (of_char c :: nat) \<le> 90)"

definition islower :: "char \<Rightarrow> bool" where
  "islower c = (97 \<le> (of_char c :: nat) \<and> (of_char c :: nat) \<le> 122)"

definition isdigit :: "char \<Rightarrow> bool" where
  "isdigit c = (48 \<le> (of_char c :: nat) \<and> (of_char c :: nat) \<le> 57)"

text \<open>The two context features of one offset (\<open>Word\<close> and \<open>Pos\<close>).\<close>

definition context_features :: "Token list \<Rightarrow> nat \<Rightarrow> string \<Rightarrow> int \<Rightarrow> string list" where
  "context_features sentence_tokens word_index tag idx_offset =
     (let j = int word_index + idx_offset;
          active_word = (if j < 0 then ''<s>''
                         else if int (length sentence_tokens) \<le> j then ''</s>''
                         else word (sentence_tokens ! nat j));
          active_pos = (if j < 0 then ''<S>''
                        else if int (length sentence_tokens) \<le> j then ''</S>''
                        else pos (sentence_tokens ! nat j))
      in [tag @ '':Word'' @ repr_offset idx_offset @ ''='' @ active_word,
          tag @ '':Pos'' @ repr_offset idx_offset @ ''='' @ active_pos])"

definition ngram_features :: "string \<Rightarrow> string \<Rightarrow> nat \<Rightarrow> string list" where
  "ngram_features curr_word tag ngram_size =
     [tag @ '':StartNgram='' @ take (min ngram_size (length curr_word)) curr_word,
      tag @ '':EndNgram='' @ drop (length curr_word - ngram_size) curr_word]"

definition word_shape :: "string \<Rightarrow> string" where
  "word_shape curr_word =
     map (\<lambda>c. if isupper c then CHR ''X'' else if islower c then CHR ''x''
              else if isdigit c then CHR ''0'' else CHR ''?'') curr_word"

text \<open>A run of \<open>maybe_add_feature\<close> calls, threading the indexer.\<close>

fun add_features :: "nat list \<Rightarrow> Indexer \<Rightarrow> bool \<Rightarrow> string list \<Rightarrow> nat list \<times> Indexer" where
  "add_features feats feature_indexer add_to_indexer [] = (feats, feature_indexer)"
| "add_features feats feature_indexer add_to_indexer (feat # rest) =
     (let (feats', ix') = maybe_add_feature feats feature_indexer add_to_indexer feat
      in add_features feats' ix' add_to_indexer rest)"

text \<open>
  \<open>extract_emission_features\<close>: the feature ids, and the feature indexer as the call
  leaves it. \<open>curr_word[0]\<close> raises IndexError on an empty word, after the context
  and n-gram features have been added.
\<close>

definition extract_emission_features ::
  "Token list \<Rightarrow> nat \<Rightarrow> string \<Rightarrow> Indexer \<Rightarrow> bool \<Rightarrow> (error + nat list) \<times> Indexer" where
  "extract_emission_features sentence_tokens word_index tag feature_indexer add_to_indexer =
     (if length sentence_tokens \<le> word_index then (Inl IndexError, feature_indexer)
      else
        (let curr_word = word (sentence_tokens ! word_index);
             (feats1, ix1) = add_features [] feature_indexer add_to_indexer
                (concat (map (context_features sentence_tokens word_index tag) [-1, 0, 1])
                 @ concat (map (ngram_features curr_word tag) [1, 2, 3]))
         in if curr_word = [] then (Inl IndexError, ix1)
            else
              (let (feats2, ix2) = add_features feats1 ix1 add_to_indexer
                     [tag @ '':IsCap='' @ repr_bool (isupper (hd curr_word)),
                      tag @ '':WordShape='' @ repr_list (word_shape curr_word)]
               in (Inr feats2, ix2))))"

text \<open>A loop that collects one value per element while threading a state, and stops at
  the first exception (the state stays as the failing call left it).\<close>

fun mapM_state ::
  "('a \<Rightarrow> 's \<Rightarrow> (error + 'b) \<times> 's) \<Rightarrow> 'a list \<Rightarrow> 's \<Rightarrow> (error + 'b list) \<times> 's" where
  "mapM_state f [] s = (Inr [], s)"
| "mapM_state f (x # xs) s =
     (case f x s of
        (Inl e, s') \<Rightarrow> (Inl e, s')
      | (Inr y, s') \<Rightarrow>
          (case mapM_state f xs s' of
             (Inl e, s'') \<Rightarrow> (Inl e, s'')
           | (Inr ys, s'') \<Rightarrow> (Inr (y # ys), s'')))"

text \<open>The feature cache loop of \<open>decode\<close>, \<open>decode_beam\<close> and \<open>train_crf_model\<close>:
  \<open>feature_cache[word_idx][tag_idx]\<close> for every position and tag.\<close>

definition build_feature_cache ::
  "Token list \<Rightarrow> Indexer \<Rightarrow> Indexer \<Rightarrow> bool \<Rightarrow> (error + nat list list list) \<times> Indexer" where
  "build_feature_cache sentence_tokens tag_indexer feature_indexer add_to_indexer =
     mapM_state (\<lambda>word_idx.
        mapM_state (\<lambda>tag_idx ix.
           (case get_object tag_indexer tag_idx of
              None \<Rightarrow> (Inl TypeError, ix)
            | Some tag \<Rightarrow>
                extract_emission_features sentence_tokens word_idx tag ix add_to_indexer))
          [0..<length tag_indexer])
       [0..<length sentence_tokens] feature_indexer"

section \<open>CRF: the feature-based scorer\<close>

text \<open>
  Modelled from the spec: the weight vector's class (\<open>optimizers.py\<close>) is not among
  the sources. The spec has a dense real-valued weight vector indexed by feature id, the
  score of a feature list being the sum of the weights of its ids. An id outside the
  vector raises IndexError, as NumPy indexing does.
\<close>

definition score :: "real list \<Rightarrow> nat list \<Rightarrow> error + real" where
  "score weights feats =
     bind_result (mapM (\<lambda>f. py_get weights (int f)) feats) (\<lambda>ws. Inr (sum_list ws))"

record FeatureBasedSequenceScorer =
  tag_indexer :: Indexer
  feature_weights :: "real list"
  feat_cache :: "nat list list list"

text \<open>The BIO helpers fail with AttributeError on \<open>None\<close>, the answer of
  \<open>get_object\<close> for an id that the tag indexer does not have.\<close>

definition score_init :: "FeatureBasedSequenceScorer \<Rightarrow> nat \<Rightarrow> error + real" where
  "score_init scorer tag_idx =
     (case get_object (tag_indexer scorer) tag_idx of
        None \<Rightarrow> Inl AttributeError
      | Some tag \<Rightarrow> Inr (if isI tag then -1000 else 0))"

definition score_transition :: "FeatureBasedSequenceScorer \<Rightarrow> nat \<Rightarrow> nat \<Rightarrow> error + real" where
  "score_transition scorer prev_tag_idx curr_tag_idx =
     (case (get_object (tag_indexer scorer) prev_tag_idx,
            get_object (tag_indexer scorer) curr_tag_idx) of
        (Some prev_tag, Some curr_tag) \<Rightarrow>
          Inr (if (isO prev_tag \<and> isI curr_tag)
                  \<or> (isB prev_tag \<and> isI curr_tag
                       \<and> get_tag_label prev_tag \<noteq> get_tag_label curr_tag)
                  \<or> (isI prev_tag \<and> isI curr_tag
                       \<and> get_tag_label prev_tag \<noteq> get_tag_label curr_tag)
               then -1000 else 0)
      | _ \<Rightarrow> Inl AttributeError)"

definition score_emission :: "FeatureBasedSequenceScorer \<Rightarrow> int \<Rightarrow> int \<Rightarrow> error + real" where
  "score_emission scorer tag_idx word_posn =
     bind_result (py_get (feat_cache scorer) word_posn) (\<lambda>row.
     bind_result (py_get row tag_idx) (\<lambda>feats.
     score (feature_weights scorer) feats))"

section \<open>CRF: the Viterbi decoder\<close>

record CrfNerModel =
  crf_tag_indexer :: Indexer
  feature_indexer :: Indexer
  crf_feature_weights :: "real list"

text \<open>
  \<open>CrfNerModel.decode\<close>, up to the list \<open>pred_tags\<close>, together with the model as
  the call leaves it: the only object of the model that the call hands to code that could
  change it is the feature indexer, given to \<open>extract_emission_features\<close>.
\<close>

definition CrfNerModel_decode ::
  "CrfNerModel \<Rightarrow> Token list \<Rightarrow> (error + string option list) \<times> CrfNerModel" where
  "CrfNerModel_decode m sentence_tokens =
     (let (cache_result, ix') =
            build_feature_cache sentence_tokens (crf_tag_indexer m) (feature_indexer m) False;
          m' = m\<lparr>feature_indexer := ix'\<rparr>
      in case cache_result of
           Inl e \<Rightarrow> (Inl e, m')
         | Inr feature_cache \<Rightarrow>
             (let scorer = \<lparr>tag_indexer = crf_tag_indexer m',
                            feature_weights = crf_feature_weights m',
                            feat_cache = feature_cache\<rparr>
              in (bind_result
                    (viterbi (score_init scorer) (score_transition scorer)
                       (\<lambda>i token. score_emission scorer (int i) (int token))
                       (length (crf_tag_indexer m')) (length sentence_tokens))
                    (\<lambda>best_indices. Inr (map (get_object (crf_tag_indexer m')) best_indices)),
                  m')))"

section \<open>CRF: the beam-search decoder\<close>

text \<open>
  Modelled from the spec: the class \<open>Beam\<close> of \<open>utils.py\<close> is not among the sources.
  The spec has a bounded collection of the \<open>k\<close> highest-scoring hypotheses with their
  scores, equal scores being kept in insertion order (first seen first). The beam is the
  list of its hypotheses in descending order of score: \<open>add\<close> puts a hypothesis
  behind every one that scores at least as much and drops what exceeds the width,
  \<open>head\<close> is the first hypothesis (IndexError on an empty beam).
\<close>

record Beam =
  beam_width :: nat
  hyps :: "(nat list \<times> real) list"

definition Beam_new :: "nat \<Rightarrow> Beam" where
  "Beam_new k = \<lparr>beam_width = k, hyps = []\<rparr>"

definition Beam_add :: "Beam \<Rightarrow> nat list \<Rightarrow> real \<Rightarrow> Beam" where
  "Beam_add b elt sc =
     b\<lparr>hyps := take (beam_width b)
          (takeWhile (\<lambda>h. sc \<le> snd h) (hyps b) @ (elt, sc)
             # dropWhile (\<lambda>h. sc \<le> snd h) (hyps b))\<rparr>"

definition get_elts_and_scores :: "Beam \<Rightarrow> (nat list \<times> real) list" where
  "get_elts_and_scores b = hyps b"

definition Beam_head :: "Beam \<Rightarrow> error + nat list" where
  "Beam_head b = (case hyps b of [] \<Rightarrow> Inl IndexError | h # rest \<Rightarrow> Inr (fst h))"

text \<open>The initialisation loop: one hypothesis \<open>[i]\<close> per tag.\<close>

definition beam_init :: "FeatureBasedSequenceScorer \<Rightarrow> nat \<Rightarrow> Beam \<Rightarrow> error + Beam" where
  "beam_init scorer num_tags current_beam =
     foldM (\<lambda>b i. bind_result (score_init scorer i) (\<lambda>a.
                    bind_result (score_emission scorer (int i) 0) (\<lambda>e.
                    Inr (Beam_add b [i] (a + e)))))
       current_beam [0..<num_tags]"

text \<open>
  The body of \<open>for i in range(beam_size)\<close>: the loop over \<open>current_i\<close> that extends
  hypothesis \<open>i\<close> of the snapshot \<open>tags, scores\<close> by every tag and adds the results to
  \<open>next_beam\<close>. \<open>tags[i]\<close> and \<open>scores[i]\<close> index tuples.
\<close>

definition beam_expand ::
  "FeatureBasedSequenceScorer \<Rightarrow> nat \<Rightarrow> nat \<Rightarrow> (nat list \<times> real) list \<Rightarrow> Beam \<Rightarrow> nat
     \<Rightarrow> error + Beam" where
  "beam_expand scorer num_tags token es next_beam i =
     foldM (\<lambda>nb current_i.
        bind_result (py_get (map fst es) (int i)) (\<lambda>tags_i.
        bind_result (py_get (map snd es) (int i)) (\<lambda>score_i.
        bind_result (py_get tags_i (-1)) (\<lambda>last_tag.
        bind_result (score_transition scorer last_tag current_i) (\<lambda>tr.
        bind_result (score_emission scorer (int current_i) (int token)) (\<lambda>em.
        Inr (Beam_add nb (tags_i @ [current_i]) (score_i + tr + em))))))))
       next_beam [0..<num_tags]"

text \<open>
  The body of the loop over the tokens. \<open>tags, scores = zip(*list(...))\<close> raises
  ValueError on an empty beam (nothing to unpack). The assignment
  \<open>current_beam = next_beam\<close> makes both names denote the same beam object, which is
  never emptied: the state is the pair of the two beams.
\<close>

definition beam_step ::
  "FeatureBasedSequenceScorer \<Rightarrow> nat \<Rightarrow> nat \<Rightarrow> Beam \<times> Beam \<Rightarrow> nat \<Rightarrow> error + Beam \<times> Beam" where
  "beam_step scorer num_tags beam_size beams token =
     (let es = get_elts_and_scores (fst beams)
      in if es = [] then Inl ValueError
         else bind_result
                (foldM (beam_expand scorer num_tags token es) (snd beams) [0..<beam_size])
                (\<lambda>nb. Inr (nb, nb)))"

text \<open>\<open>CrfNerModel.decode_beam\<close>, up to the list \<open>pred_tags\<close>, together with the
  model as the call leaves it.\<close>

definition decode_beam ::
  "CrfNerModel \<Rightarrow> Token list \<Rightarrow> (error + string option list) \<times> CrfNerModel" where
  "decode_beam m sentence_tokens =
     (let beam_size = 9;
          num_words = length sentence_tokens;
          num_tags = length (crf_tag_indexer m);
          current_beam = Beam_new beam_size;
          next_beam = Beam_new beam_size;
          (cache_result, ix') =
            build_feature_cache sentence_tokens (crf_tag_indexer m) (feature_indexer m) False;
          m' = m\<lparr>feature_indexer := ix'\<rparr>
      in case cache_result of
           Inl e \<Rightarrow> (Inl e, m')
         | Inr feature_cache \<Rightarrow>
             (let scorer = \<lparr>tag_indexer = crf_tag_indexer m',
                            feature_weights = crf_feature_weights m',
                            feat_cache = feature_cache\<rparr>
              in (bind_result (beam_init scorer num_tags current_beam) (\<lambda>cb.
                  bind_result (foldM (beam_step scorer num_tags beam_size) (cb, next_beam)
                                 [1..<num_words]) (\<lambda>beams.
                  bind_result (Beam_head (fst beams)) (\<lambda>last_state.
                  Inr (map (get_object (crf_tag_indexer m')) last_state)))),
                  m')))"

section \<open>CRF training: \<open>compute_gradient\<close>\<close>

text \<open>
  Modelled from the spec: the class \<open>LabeledSentence\<close> of \<open>nerdata.py\<close> is not among
  the sources. The spec's training input is a sequence of tokens paired with a BIO tag
  sequence of equal length: a labeled sentence is the list of its tokens, each with its
  tag.
\<close>

type_synonym LabeledSentence = "(Token \<times> string) list"

definition tokens :: "LabeledSentence \<Rightarrow> Token list" where
  "tokens sentence = map fst sentence"

definition get_bio_tags :: "LabeledSentence \<Rightarrow> string list" where
  "get_bio_tags sentence = map snd sentence"

















section \<open>HMM training: \<open>train_hmm_model\<close>\<close>

text \<open>The first pass: \<open>word_counter[token.word] += 1.0\<close> for every token of the
  corpus.\<close>

definition count_words :: "LabeledSentence list \<Rightarrow> Counter" where
  "count_words sentences =
     fold (\<lambda>sentence wc.
             fold (\<lambda>token wc. wc(word token := wc (word token) + 1)) (tokens sentence) wc)
       sentences (\<lambda>w. 0)"

text \<open>The second pass: every word goes through \<open>get_word_index\<close>, every tag through
  \<open>add_and_get_index\<close>. The state is the pair of the word indexer and the tag indexer;
  the word indexer starts with \<open>UNK\<close>.\<close>

definition index_sentence ::
  "Counter \<Rightarrow> LabeledSentence \<Rightarrow> Indexer \<times> Indexer \<Rightarrow> Indexer \<times> Indexer" where
  "index_sentence word_counter sentence ixs =
     (fold (\<lambda>token ix. snd (get_word_index ix word_counter (word token)))
        (tokens sentence) (fst ixs),
      fold (\<lambda>tag ix. snd (add_and_get_index ix tag)) (get_bio_tags sentence) (snd ixs))"

definition index_corpus :: "Counter \<Rightarrow> LabeledSentence list \<Rightarrow> Indexer \<times> Indexer" where
  "index_corpus word_counter sentences =
     fold (index_sentence word_counter) sentences (snd (add_and_get_index [] ''UNK''), [])"

text \<open>NumPy's \<open>a[i] += 1.0\<close> and \<open>a[r][c] += 1.0\<close> for indices that are not
  negative: IndexError outside the array.\<close>

definition np_inc :: "real list \<Rightarrow> nat \<Rightarrow> error + real list" where
  "np_inc xs i = (if i < length xs then Inr (xs[i := xs ! i + 1]) else Inl IndexError)"

definition np_inc2 :: "real list list \<Rightarrow> nat \<Rightarrow> nat \<Rightarrow> error + real list list" where
  "np_inc2 m r c =
     (if r < length m \<and> c < length (m ! r) then Inr (m[r := (m ! r)[c := m ! r ! c + 1]])
      else Inl IndexError)"

text \<open>The state of the third pass: the two indexers and the three count arrays.\<close>

record hmm_counts =
  c_tag_indexer :: Indexer
  c_word_indexer :: Indexer
  init_counts :: "real list"
  transition_counts :: "real list list"
  emission_counts :: "real list list"

text \<open>The body of the loop \<open>for i in range(0, len(sentence))\<close> of the third pass.\<close>

definition count_position ::
  "Counter \<Rightarrow> LabeledSentence \<Rightarrow> hmm_counts \<Rightarrow> nat \<Rightarrow> error + hmm_counts" where
  "count_position word_counter sentence st i =
     (let bio_tags = get_bio_tags sentence;
          (tag_idx, tix1) = add_and_get_index (c_tag_indexer st) (bio_tags ! i);
          (word_idx, wix1) =
             get_word_index (c_word_indexer st) word_counter (word (tokens sentence ! i))
      in bind_result (np_inc2 (emission_counts st) tag_idx word_idx) (\<lambda>em.
           if i = 0
           then bind_result (np_inc (init_counts st) tag_idx) (\<lambda>ic.
                  Inr (st\<lparr>c_tag_indexer := tix1, c_word_indexer := wix1,
                          emission_counts := em, init_counts := ic\<rparr>))
           else (let (prev_idx, tix2) = add_and_get_index tix1 (bio_tags ! (i - 1))
                 in bind_result (np_inc2 (transition_counts st) prev_idx tag_idx) (\<lambda>tc.
                      Inr (st\<lparr>c_tag_indexer := tix2, c_word_indexer := wix1,
                              emission_counts := em, transition_counts := tc\<rparr>)))))"

text \<open>\<open>np.log(counts / counts.sum())\<close> on one row.\<close>

definition normalize_log :: "real list \<Rightarrow> real list" where
  "normalize_log row = map (\<lambda>c. ln (c / sum_list row)) row"

text \<open>
  The diagnostic output of a call that is not silent: \<open>add_and_get_index("India")\<close> and
  \<open>add_and_get_index("Phil")\<close> register the word when the indexer lacks it, and
  \<open>emission_counts[:, idx]\<close> raises IndexError for a column that the array, of
  \<open>num_words\<close> columns, does not have.
\<close>

definition debug_prints :: "Indexer \<Rightarrow> nat \<Rightarrow> error + Indexer" where
  "debug_prints wix num_words =
     (let (i1, wix1) = add_and_get_index wix ''India''
      in if num_words \<le> i1 then Inl IndexError
         else (let (i2, wix2) = add_and_get_index wix1 ''Phil''
               in if num_words \<le> i2 then Inl IndexError else Inr wix2))"

definition train_hmm_model :: "LabeledSentence list \<Rightarrow> bool \<Rightarrow> error + HmmNerModel" where
  "train_hmm_model sentences silent =
     (let word_counter = count_words sentences;
          ixs = index_corpus word_counter sentences;
          num_words = length (fst ixs);
          num_tags = length (snd ixs);
          st0 = \<lparr>c_tag_indexer = snd ixs, c_word_indexer = fst ixs,
                 init_counts = replicate num_tags 0.001,
                 transition_counts = replicate num_tags (replicate num_tags 0.001),
                 emission_counts = replicate num_tags (replicate num_words 0.001)\<rparr>
      in bind_result
           (foldM (\<lambda>st sentence.
                     foldM (count_position word_counter sentence) st [0..<length sentence])
              st0 sentences) (\<lambda>st.
         bind_result
           (if silent then Inr (c_word_indexer st)
            else debug_prints (c_word_indexer st) num_words) (\<lambda>wix.
         Inr \<lparr>hmm_tag_indexer = c_tag_indexer st, word_indexer = wix,
              init_log_probs = normalize_log (init_counts st),
              transition_log_probs = map normalize_log (transition_counts st),
              emission_log_probs = map normalize_log (emission_counts st)\<rparr>)))"

text \<open>A table whose rows are non-empty and hold positive entries only; a table of
  probabilities whose rows are distributions without a zero entry.\<close>

definition positive_rows :: "real list list \<Rightarrow> bool" where
  "positive_rows m = (\<forall>row\<in>set m. row \<noteq> [] \<and> (\<forall>c\<in>set row. 0 < c))"


text \<open>The word under which a corpus word is counted: \<open>UNK\<close> for a word seen fewer
  than two times.\<close>

definition word_key :: "Counter \<Rightarrow> string \<Rightarrow> string" where
  "word_key word_counter w = (if word_counter w < 2 then ''UNK'' else w)"

text \<open>The invariant of the third pass: the indexers stay as the second pass left them
  and the arrays keep their shapes.\<close>

definition counts_shape :: "Indexer \<Rightarrow> Indexer \<Rightarrow> hmm_counts \<Rightarrow> bool" where
  "counts_shape tix wix st =
     (c_tag_indexer st = tix \<and> c_word_indexer st = wix
      \<and> length (init_counts st) = length tix
      \<and> length (transition_counts st) = length tix
      \<and> (\<forall>row\<in>set (transition_counts st). length row = length tix)
      \<and> length (emission_counts st) = length tix
      \<and> (\<forall>row\<in>set (emission_counts st). length row = length wix))"

text \<open>The whole invariant of the third pass: shapes kept, counts positive.\<close>

definition pass_inv :: "Indexer \<Rightarrow> Indexer \<Rightarrow> hmm_counts \<Rightarrow> bool" where
  "pass_inv tix wix st =
     (counts_shape tix wix st \<and> positive_rows (transition_counts st)
      \<and> positive_rows (emission_counts st))"

text \<open>A corpus of two sentences.\<close>

definition example_corpus :: "LabeledSentence list" where
  "example_corpus =
     [[(\<lparr>word = ''Alice'', pos = ''NNP''\<rparr>, ''B-PER''), (\<lparr>word = ''lives'', pos = ''VBZ''\<rparr>, ''O'')],
      [(\<lparr>word = ''Bob'', pos = ''NNP''\<rparr>, ''B-PER''), (\<lparr>word = ''works'', pos = ''VBZ''\<rparr>, ''O'')]]"

section \<open>What the decoders are meant to compute\<close>

text \<open>The value of a potential that did not raise.\<close>

definition the_score :: "error + real \<Rightarrow> real" where
  "the_score r = (case r of Inl e \<Rightarrow> 0 | Inr v \<Rightarrow> v)"

text \<open>The score of a tag sequence: the initial potential of its first tag, the
  emission potential of every position and the transition potential of every pair of
  adjacent positions.\<close>

definition seq_score ::
  "(nat \<Rightarrow> real) \<Rightarrow> (nat \<Rightarrow> nat \<Rightarrow> real) \<Rightarrow> (nat \<Rightarrow> nat \<Rightarrow> real) \<Rightarrow> nat list \<Rightarrow> real" where
  "seq_score pinit ptrans pemis ts =
     pinit (ts ! 0) + (\<Sum>i\<leftarrow>[0..<length ts]. pemis (ts ! i) i)
       + (\<Sum>i\<leftarrow>[1..<length ts]. ptrans (ts ! (i - 1)) (ts ! i))"

text \<open>
  Brute force: all \<open>T ^ N\<close> tag sequences, enumerated with the tag of the last position
  varying slowest and the tag of the first position fastest, every position counting
  upwards; and the first sequence of the enumeration whose score no other exceeds.
\<close>

fun all_paths :: "nat \<Rightarrow> nat \<Rightarrow> nat list list" where
  "all_paths T 0 = [[]]"
| "all_paths T (Suc n) = concat (map (\<lambda>t. map (\<lambda>p. p @ [t]) (all_paths T n)) [0..<T])"

fun arg_first_max :: "('a \<Rightarrow> real) \<Rightarrow> 'a \<Rightarrow> 'a list \<Rightarrow> 'a" where
  "arg_first_max f b [] = b"
| "arg_first_max f b (x # xs) = arg_first_max f (if f b < f x then x else b) xs"

definition brute_force :: "(nat list \<Rightarrow> real) \<Rightarrow> nat \<Rightarrow> nat \<Rightarrow> nat list option" where
  "brute_force f T N =
     (case all_paths T N of [] \<Rightarrow> None | p # ps \<Rightarrow> Some (arg_first_max f p ps))"

text \<open>\<open>before q r\<close>: of two tag sequences of the same length, \<open>q\<close> comes earlier in
  that enumeration than \<open>r\<close>.\<close>

fun lex_less :: "nat list \<Rightarrow> nat list \<Rightarrow> bool" where
  "lex_less (a # as) (b # bs) = (a < b \<or> (a = b \<and> lex_less as bs))"
| "lex_less _ _ = False"

definition before :: "nat list \<Rightarrow> nat list \<Rightarrow> bool" where
  "before q r = lex_less (rev q) (rev r)"

text \<open>The tables of an HMM have the shapes that the class documents: \<open>num_tags\<close>
  initial scores, a \<open>num_tags \<times> num_tags\<close> transition matrix and a
  \<open>num_tags \<times> num_words\<close> emission matrix, the word indexer being non-empty.\<close>

definition hmm_well_shaped :: "HmmNerModel \<Rightarrow> bool" where
  "hmm_well_shaped m =
     (let T = length (init_log_probs m); V = length (word_indexer m)
      in 0 < V
         \<and> length (transition_log_probs m) = T
         \<and> list_all (\<lambda>row. length row = T) (transition_log_probs m)
         \<and> length (emission_log_probs m) = T
         \<and> list_all (\<lambda>row. length row = V) (emission_log_probs m))"

text \<open>The scorer that \<open>CrfNerModel.decode\<close> builds for a sentence, when the feature
  extraction does not raise.\<close>

definition decode_scorer :: "CrfNerModel \<Rightarrow> Token list \<Rightarrow> FeatureBasedSequenceScorer" where
  "decode_scorer m sentence_tokens =
     \<lparr>tag_indexer = crf_tag_indexer m,
      feature_weights = crf_feature_weights m,
      feat_cache =
        (case fst (build_feature_cache sentence_tokens (crf_tag_indexer m)
                     (feature_indexer m) False) of
           Inl e \<Rightarrow> [] | Inr feature_cache \<Rightarrow> feature_cache)\<rparr>"

text \<open>The tag sequence that the back pass reads off the backpointers when it starts
  from tag \<open>t\<close>.\<close>

definition path_to :: "nat list list \<Rightarrow> nat \<Rightarrow> nat list" where
  "path_to prev t = rev (back_pass (rev prev) t)"

section \<open>Notions used in the proofs\<close>

text \<open>The list \<open>tags_for_i\<close> of a current tag, the cells of a column, and the
  invariant of the loop over the tokens, for potentials that do not raise: after \<open>n\<close>
  tokens, the back pass from every tag \<open>t\<close> yields a sequence of \<open>n\<close> tags that ends
  in \<open>t\<close>, has the score stored for \<open>t\<close>, is at least as good as every sequence of
  \<open>n\<close> tags ending in \<open>t\<close> and strictly better than those enumerated before it.\<close>

definition cell_tags :: "(nat \<Rightarrow> nat \<Rightarrow> real) \<Rightarrow> nat \<Rightarrow> real list \<Rightarrow> nat \<Rightarrow> real list" where
  "cell_tags Tr T col c = map (\<lambda>p. col ! p + Tr p c) [0..<T]"

definition pure_cells ::
  "(nat \<Rightarrow> nat \<Rightarrow> real) \<Rightarrow> (nat \<Rightarrow> nat \<Rightarrow> real) \<Rightarrow> nat \<Rightarrow> real list \<Rightarrow> nat \<Rightarrow> (real \<times> nat) list" where
  "pure_cells Tr E T col tok =
     map (\<lambda>c. (cell_tags Tr T col c ! first_max_index (cell_tags Tr T col c) + E c tok,
               first_max_index (cell_tags Tr T col c))) [0..<T]"

definition viterbi_inv ::
  "(nat \<Rightarrow> real) \<Rightarrow> (nat \<Rightarrow> nat \<Rightarrow> real) \<Rightarrow> (nat \<Rightarrow> nat \<Rightarrow> real) \<Rightarrow> nat \<Rightarrow> nat
     \<Rightarrow> real list \<Rightarrow> nat list list \<Rightarrow> bool" where
  "viterbi_inv I Tr E T n col prev =
     (length col = T \<and> length prev = n - 1
      \<and> (\<forall>t<T. length (path_to prev t) = n
            \<and> (\<forall>u\<in>set (path_to prev t). u < T)
            \<and> last (path_to prev t) = t
            \<and> seq_score I Tr E (path_to prev t) = col ! t
            \<and> (\<forall>q. length q = n \<and> (\<forall>u\<in>set q. u < T) \<and> last q = t
                  \<longrightarrow> seq_score I Tr E q \<le> col ! t
                      \<and> (before q (path_to prev t) \<longrightarrow> seq_score I Tr E q < col ! t))))"

text \<open>The feature ids that inference-mode extraction yields for a position and tag.\<close>

definition features_of :: "Token list \<Rightarrow> Indexer \<Rightarrow> nat \<Rightarrow> string \<Rightarrow> nat list" where
  "features_of toks ix w tag =
     (case fst (extract_emission_features toks w tag ix False) of
        Inl e \<Rightarrow> [] | Inr feats \<Rightarrow> feats)"

text \<open>The score of a tag sequence under the potentials of each decoder.\<close>

definition hmm_seq_score :: "HmmNerModel \<Rightarrow> Token list \<Rightarrow> nat list \<Rightarrow> real" where
  "hmm_seq_score m sentence_tokens =
     seq_score (\<lambda>i. the_score (hmm_init m i))
       (\<lambda>p c. the_score (hmm_transition m p c))
       (\<lambda>i t. the_score (hmm_emission m sentence_tokens i t))"

definition crf_seq_score :: "CrfNerModel \<Rightarrow> Token list \<Rightarrow> nat list \<Rightarrow> real" where
  "crf_seq_score m sentence_tokens =
     seq_score (\<lambda>i. the_score (score_init (decode_scorer m sentence_tokens) i))
       (\<lambda>p c. the_score (score_transition (decode_scorer m sentence_tokens) p c))
       (\<lambda>i t. the_score (score_emission (decode_scorer m sentence_tokens) (int i) (int t)))"

text \<open>Every hypothesis of a beam is a non-empty sequence of tag ids.\<close>

definition beam_ok :: "nat \<Rightarrow> Beam \<Rightarrow> bool" where
  "beam_ok T b = (\<forall>h\<in>set (hyps b). fst h \<noteq> [] \<and> (\<forall>t\<in>set (fst h). t < T))"

text \<open>The BIO-illegal adjacent pairs: \<open>O\<close> followed by \<open>I-X\<close>, and \<open>B-X\<close> or
  \<open>I-X\<close> followed by \<open>I-Y\<close> with \<open>Y\<close> different from \<open>X\<close>.\<close>

definition bio_illegal :: "string \<Rightarrow> string \<Rightarrow> bool" where
  "bio_illegal prev_tag curr_tag =
     ((isO prev_tag \<and> isI curr_tag)
      \<or> (isB prev_tag \<and> isI curr_tag \<and> get_tag_label prev_tag \<noteq> get_tag_label curr_tag)
      \<or> (isI prev_tag \<and> isI curr_tag \<and> get_tag_label prev_tag \<noteq> get_tag_label curr_tag))"

section \<open>Example inputs\<close>

text \<open>A two-tag HMM over the words \<open>UNK\<close> and \<open>Alice\<close>, a two-tag CRF with one
  feature, and a sentence of two tokens.\<close>

definition example_hmm :: HmmNerModel where
  "example_hmm =
     \<lparr>hmm_tag_indexer = [''O'', ''B-PER''], word_indexer = [''UNK'', ''Alice''],
      init_log_probs = [-1, -2],
      transition_log_probs = [[-1, -2], [-3, -1]],
      emission_log_probs = [[-1, -5], [-3, -1]]\<rparr>"

definition example_crf :: CrfNerModel where
  "example_crf =
     \<lparr>crf_tag_indexer = [''O'', ''B-PER''], feature_indexer = [''B-PER:Word0=Alice''],
      crf_feature_weights = [2]\<rparr>"

text \<open>A CRF whose single feature weighs more than the penalty.\<close>

definition heavy_crf :: CrfNerModel where
  "heavy_crf =
     \<lparr>crf_tag_indexer = [''O'', ''I-PER''], feature_indexer = [''I-PER:Word0=Alice''],
      crf_feature_weights = [5000]\<rparr>"

text \<open>A CRF with an \<open>I-\<close> tag in its tag set, whose single feature has a small
  weight.\<close>

definition bio_crf :: CrfNerModel where
  "bio_crf =
     \<lparr>crf_tag_indexer = [''I-PER'', ''O'', ''B-PER''],
      feature_indexer = [''B-PER:Word0=Alice''],
      crf_feature_weights = [2]\<rparr>"



definition example_sentence :: "Token list" where
  "example_sentence = [\<lparr>word = ''Alice'', pos = ''NNP''\<rparr>, \<lparr>word = ''works'', pos = ''VBZ''\<rparr>]"

section \<open>Facts about the indexer\<close>

lemma index_of_ge: "- 1 \<le> index_of ix obj"
  by (induction ix) (auto simp: Let_def)

lemma index_of_absent: "(index_of ix obj = -1) = (obj \<notin> set ix)"
proof (induction ix)
  case Nil
  show ?case by simp
next
  case (Cons x xs)
  have "- 1 \<le> index_of xs obj" by (rule index_of_ge)
  with Cons show ?case by (auto simp: Let_def)
qed

lemma index_of_present:
  "obj \<in> set ix \<Longrightarrow> 0 \<le> index_of ix obj \<and> nat (index_of ix obj) < length ix
     \<and> ix ! nat (index_of ix obj) = obj"
proof (induction ix)
  case Nil
  then show ?case by simp
next
  case (Cons x xs)
  show ?case
  proof (cases "x = obj")
    case True
    then show ?thesis by simp
  next
    case False
    with Cons.prems have mem: "obj \<in> set xs" by simp
    from Cons.IH [OF mem] have ih: "0 \<le> index_of xs obj"
      "nat (index_of xs obj) < length xs" "xs ! nat (index_of xs obj) = obj" by auto
    from ih(1) have ne: "index_of xs obj \<noteq> -1" by simp
    have eq: "nat (index_of xs obj + 1) = Suc (nat (index_of xs obj))"
      using ih(1) by simp
    show ?thesis using False ne ih eq by (simp add: Let_def)
  qed
qed

lemma index_of_append_old:
  "obj \<in> set ix \<Longrightarrow> index_of (ix @ ys) obj = index_of ix obj"
proof (induction ix)
  case Nil
  then show ?case by simp
next
  case (Cons x xs)
  then show ?case by (auto simp: Let_def)
qed

lemma index_of_append_new:
  "obj \<notin> set ix \<Longrightarrow> index_of (ix @ [obj]) obj = int (length ix)"
proof (induction ix)
  case Nil
  then show ?case by simp
next
  case (Cons x xs)
  then show ?case by (auto simp: Let_def)
qed

lemma add_and_get_index_result:
  assumes "add_and_get_index ix obj = (i, ix')"
  shows "i < length ix'" and "ix' ! i = obj" and "int i = index_of ix' obj"
    and "ix' = (if obj \<in> set ix then ix else ix @ [obj])"
proof -
  have all: "i < length ix' \<and> ix' ! i = obj \<and> int i = index_of ix' obj
      \<and> ix' = (if obj \<in> set ix then ix else ix @ [obj])"
  proof (cases "obj \<in> set ix")
    case True
    then have "index_of ix obj \<noteq> -1" by (simp add: index_of_absent)
    with assms have r: "i = nat (index_of ix obj)" "ix' = ix"
      by (auto simp: add_and_get_index_def)
    from index_of_present [OF True] r True show ?thesis by auto
  next
    case False
    then have "index_of ix obj = -1" by (simp add: index_of_absent)
    with assms have r: "i = length ix" "ix' = ix @ [obj]"
      by (auto simp: add_and_get_index_def)
    from r index_of_append_new [OF False] False show ?thesis by auto
  qed
  from all show "i < length ix'" by blast
  from all show "ix' ! i = obj" by blast
  from all show "int i = index_of ix' obj" by blast
  from all show "ix' = (if obj \<in> set ix then ix else ix @ [obj])" by blast
qed

lemma count_below_threshold: "(real (c::nat) < 1.5) = (c < 2)"
  by (cases "c < 2") auto

section \<open>Facts about the error monad and the primitives\<close>

lemma bind_result_Inr [simp]: "bind_result (Inr x) f = f x"
  by (simp add: bind_result_def)

lemma bind_result_Inl [simp]: "bind_result (Inl e) f = Inl e"
  by (simp add: bind_result_def)

lemma mapM_Inr: "(\<And>x. x \<in> set xs \<Longrightarrow> f x = Inr (g x)) \<Longrightarrow> mapM f xs = Inr (map g xs)"
  by (induction xs) simp_all

lemma foldM_append:
  "foldM f s (xs @ ys) = bind_result (foldM f s xs) (\<lambda>s'. foldM f s' ys)"
proof (induction xs arbitrary: s)
  case Nil
  show ?case by simp
next
  case (Cons x xs)
  show ?case by (cases "f s x") (simp_all add: Cons.IH)
qed

lemma first_max_index_props:
  "xs \<noteq> [] \<Longrightarrow> first_max_index xs < length xs
     \<and> (\<forall>i<length xs. xs ! i \<le> xs ! first_max_index xs)
     \<and> (\<forall>i<first_max_index xs. xs ! i < xs ! first_max_index xs)"
proof (induction xs)
  case Nil
  then show ?case by simp
next
  case (Cons x xs)
  show ?case
  proof (cases "xs = []")
    case True
    then show ?thesis by simp
  next
    case False
    note ih = Cons.IH [OF False]
    show ?thesis
    proof (cases "x < xs ! first_max_index xs")
      case True
      then have e: "first_max_index (x # xs) = Suc (first_max_index xs)"
        using False by simp
      have a: "\<forall>i<length (x # xs). (x # xs) ! i \<le> xs ! first_max_index xs"
      proof (intro allI impI)
        fix i assume "i < length (x # xs)"
        then show "(x # xs) ! i \<le> xs ! first_max_index xs"
          using ih True by (cases i) auto
      qed
      have b: "\<forall>i<Suc (first_max_index xs). (x # xs) ! i < xs ! first_max_index xs"
      proof (intro allI impI)
        fix i assume "i < Suc (first_max_index xs)"
        then show "(x # xs) ! i < xs ! first_max_index xs"
          using ih True by (cases i) auto
      qed
      from a b ih show ?thesis unfolding e by simp
    next
      case False2: False
      then have e: "first_max_index (x # xs) = 0" by simp
      have a: "\<forall>i<length (x # xs). (x # xs) ! i \<le> x"
      proof (intro allI impI)
        fix i assume "i < length (x # xs)"
        then show "(x # xs) ! i \<le> x"
        proof (cases i)
          case 0
          then show ?thesis by simp
        next
          case (Suc j)
          with \<open>i < length (x # xs)\<close> have "j < length xs" by simp
          with ih have "xs ! j \<le> xs ! first_max_index xs" by blast
          with False2 Suc show ?thesis by simp
        qed
      qed
      from a show ?thesis unfolding e by simp
    qed
  qed
qed

lemma path_to_Nil: "path_to [] t = [t]"
  by (simp add: path_to_def)

lemma path_to_snoc: "path_to (prev @ [bp]) t = path_to prev (bp ! t) @ [t]"
  by (simp add: path_to_def)

lemma seq_score_single: "seq_score I Tr E [t] = I t + E t 0"
  by (simp add: seq_score_def)

lemma seq_score_snoc:
  assumes "ts \<noteq> []"
  shows "seq_score I Tr E (ts @ [t]) = seq_score I Tr E ts + Tr (last ts) t + E t (length ts)"
proof -
  let ?n = "length ts"
  from assms have n: "0 < ?n" by simp
  have up0: "[0..<length (ts @ [t])] = [0..<?n] @ [?n]" by simp
  have up1: "[1..<length (ts @ [t])] = [1..<?n] @ [?n]" using n by (simp add: Suc_leI)
  have e: "map (\<lambda>i. E ((ts @ [t]) ! i) i) [0..<?n] = map (\<lambda>i. E (ts ! i) i) [0..<?n]"
    by (rule map_cong) (simp_all add: nth_append)
  have tr: "map (\<lambda>i. Tr ((ts @ [t]) ! (i - 1)) ((ts @ [t]) ! i)) [1..<?n]
      = map (\<lambda>i. Tr (ts ! (i - 1)) (ts ! i)) [1..<?n]"
    by (rule map_cong) (auto simp: nth_append)
  have l: "(ts @ [t]) ! (?n - 1) = last ts"
    using assms n by (simp add: nth_append last_conv_nth)
  have h: "(ts @ [t]) ! 0 = ts ! 0" using n by (simp add: nth_append)
  show ?thesis
    unfolding seq_score_def up0 up1 map_append sum_list_append h e tr
    using l by simp
qed

lemma lex_less_irrefl_len: "before [] [] = False"
  by (simp add: before_def)

lemma before_snoc: "before (q @ [a]) (r @ [b]) = (a < b \<or> (a = b \<and> before q r))"
  by (simp add: before_def)

section \<open>The invariant of the Viterbi loop\<close>

lemma first_column_pure:
  assumes "\<And>i. i < T \<Longrightarrow> si i = Inr (I i)" and "\<And>i. i < T \<Longrightarrow> se i 0 = Inr (E i 0)"
  shows "first_column si se T = Inr (map (\<lambda>i. I i + E i 0) [0..<T])"
  unfolding first_column_def by (rule mapM_Inr) (simp add: assms)

lemma next_column_pure:
  assumes T: "0 < T"
    and tr: "\<And>p c. p < T \<Longrightarrow> c < T \<Longrightarrow> st p c = Inr (Tr p c)"
    and em: "\<And>i. i < T \<Longrightarrow> se i tok = Inr (E i tok)"
  shows "next_column st se T col tok = Inr (pure_cells Tr E T col tok)"
proof -
  have key: "bind_result
          (mapM (\<lambda>prev_i. bind_result (st prev_i c) (\<lambda>t. Inr (col ! prev_i + t))) [0..<T])
          (\<lambda>tags_for_i. bind_result (np_argmax tags_for_i) (\<lambda>best.
             bind_result (se c tok) (\<lambda>e. Inr (tags_for_i ! best + e, best))))
        = Inr (cell_tags Tr T col c ! first_max_index (cell_tags Tr T col c) + E c tok,
               first_max_index (cell_tags Tr T col c))" if c: "c < T" for c
  proof -
    have m: "mapM (\<lambda>prev_i. bind_result (st prev_i c) (\<lambda>t. Inr (col ! prev_i + t))) [0..<T]
        = Inr (cell_tags Tr T col c)"
      unfolding cell_tags_def by (rule mapM_Inr) (simp add: tr c)
    have ne: "cell_tags Tr T col c \<noteq> []" using T by (simp add: cell_tags_def)
    show ?thesis by (simp add: m np_argmax_def ne em c)
  qed
  show ?thesis
    unfolding next_column_def pure_cells_def by (rule mapM_Inr) (simp add: key)
qed

lemma viterbi_inv_first:
  "viterbi_inv I Tr E T (Suc 0) (map (\<lambda>i. I i + E i 0) [0..<T]) []"
proof -
  have one: "seq_score I Tr E q \<le> I t + E t 0
      \<and> (before q [t] \<longrightarrow> seq_score I Tr E q < I t + E t 0)"
    if "length q = Suc 0" "last q = t" for q :: "nat list" and t
  proof -
    from that have "q = [t]" by (cases q) auto
    then show ?thesis by (simp add: seq_score_single before_def)
  qed
  show ?thesis
    unfolding viterbi_inv_def
    by (simp add: path_to_Nil seq_score_single one)
qed

lemma viterbi_inv_step:
  assumes inv: "viterbi_inv I Tr E T n col prev" and n: "0 < n" and T: "0 < T"
  shows "viterbi_inv I Tr E T (Suc n) (map fst (pure_cells Tr E T col n))
           (prev @ [map snd (pure_cells Tr E T col n)])"
proof -
  let ?cells = "pure_cells Tr E T col n"
  let ?bp = "map snd ?cells"
  from inv have lc: "length col = T" and lp: "length prev = n - 1"
    by (simp_all add: viterbi_inv_def)
  have cell: "\<forall>t<T. length (path_to (prev @ [?bp]) t) = Suc n
            \<and> (\<forall>u\<in>set (path_to (prev @ [?bp]) t). u < T)
            \<and> last (path_to (prev @ [?bp]) t) = t
            \<and> seq_score I Tr E (path_to (prev @ [?bp]) t) = map fst ?cells ! t
            \<and> (\<forall>q. length q = Suc n \<and> (\<forall>u\<in>set q. u < T) \<and> last q = t
                  \<longrightarrow> seq_score I Tr E q \<le> map fst ?cells ! t
                      \<and> (before q (path_to (prev @ [?bp]) t)
                           \<longrightarrow> seq_score I Tr E q < map fst ?cells ! t))"
  proof (intro allI impI)
    fix c assume c: "c < T"
    let ?tags = "cell_tags Tr T col c"
    let ?b = "first_max_index ?tags"
    have lt: "length ?tags = T" by (simp add: cell_tags_def)
    have ne: "?tags \<noteq> []" using T by (simp add: cell_tags_def)
    note fm = first_max_index_props [OF ne]
    from fm lt have b: "?b < T" by simp
    have tagv: "\<And>p. p < T \<Longrightarrow> ?tags ! p = col ! p + Tr p c"
      by (simp add: cell_tags_def)
    have bpc: "?bp ! c = ?b" using c by (simp add: pure_cells_def)
    have fstc: "map fst ?cells ! c = ?tags ! ?b + E c n" using c by (simp add: pure_cells_def)
    have pth: "path_to (prev @ [?bp]) c = path_to prev ?b @ [c]"
      by (simp add: path_to_snoc bpc)
    from inv b have pb: "length (path_to prev ?b) = n" "\<forall>u\<in>set (path_to prev ?b). u < T"
      "last (path_to prev ?b) = ?b" "seq_score I Tr E (path_to prev ?b) = col ! ?b"
      by (simp_all add: viterbi_inv_def)
    from pb(1) n have pne: "path_to prev ?b \<noteq> []" by auto
    have sc: "seq_score I Tr E (path_to (prev @ [?bp]) c) = map fst ?cells ! c"
      unfolding pth seq_score_snoc [OF pne] fstc using pb tagv [OF b] by simp
    have opt: "\<forall>q. length q = Suc n \<and> (\<forall>u\<in>set q. u < T) \<and> last q = c
                  \<longrightarrow> seq_score I Tr E q \<le> map fst ?cells ! c
                      \<and> (before q (path_to (prev @ [?bp]) c)
                           \<longrightarrow> seq_score I Tr E q < map fst ?cells ! c)"
    proof (intro allI impI)
      fix q assume q: "length q = Suc n \<and> (\<forall>u\<in>set q. u < T) \<and> last q = c"
      then have qne: "q \<noteq> []" by auto
      define q' where "q' = butlast q"
      from q append_butlast_last_id [OF qne] have qq: "q = q' @ [c]" by (simp add: q'_def)
      from q have lq': "length q' = n" by (simp add: q'_def)
      with n have q'ne: "q' \<noteq> []" by auto
      define h where "h = last q'"
      from q have q'T: "\<forall>u\<in>set q'. u < T" by (auto simp: q'_def dest: in_set_butlastD)
      with q'ne have h: "h < T" by (simp add: h_def)
      from inv h lq' q'T have ih: "seq_score I Tr E q' \<le> col ! h"
        "before q' (path_to prev h) \<Longrightarrow> seq_score I Tr E q' < col ! h"
        by (simp_all add: viterbi_inv_def h_def)
      have sq: "seq_score I Tr E q = seq_score I Tr E q' + Tr h c + E c n"
        unfolding qq seq_score_snoc [OF q'ne] by (simp add: h_def lq')
      from fm lt h have le: "?tags ! h \<le> ?tags ! ?b" by simp
      have up: "seq_score I Tr E q \<le> map fst ?cells ! c"
        unfolding sq fstc using ih(1) le tagv [OF h] by simp
      have strict: "seq_score I Tr E q < map fst ?cells ! c"
        if bf: "before q (path_to (prev @ [?bp]) c)"
      proof -
        from bf have bf': "before q' (path_to prev ?b)"
          unfolding pth qq by (simp add: before_snoc)
        from append_butlast_last_id [OF q'ne] have q'': "q' = butlast q' @ [h]"
          by (simp add: h_def)
        from append_butlast_last_id [OF pne] pb(3)
        have p'': "path_to prev ?b = butlast (path_to prev ?b) @ [?b]" by simp
        from bf' have "before (butlast q' @ [h]) (butlast (path_to prev ?b) @ [?b])"
          using q'' p'' by simp
        then have "h < ?b \<or> h = ?b" by (auto simp: before_snoc)
        with bf' have cases: "h < ?b \<or> (h = ?b \<and> before q' (path_to prev h))" by auto
        then show ?thesis
        proof
          assume "h < ?b"
          with fm have "?tags ! h < ?tags ! ?b" by simp
          then show ?thesis unfolding sq fstc using ih(1) tagv [OF h] by simp
        next
          assume hb: "h = ?b \<and> before q' (path_to prev h)"
          with ih(2) have lt: "seq_score I Tr E q' < col ! h" by blast
          from hb have hb': "?b = h" by simp
          from lt show ?thesis unfolding sq fstc hb' using tagv [OF h] by simp
        qed
      qed
      from up strict
      show "seq_score I Tr E q \<le> map fst ?cells ! c
              \<and> (before q (path_to (prev @ [?bp]) c)
                   \<longrightarrow> seq_score I Tr E q < map fst ?cells ! c)" by blast
    qed
    have len: "length (path_to (prev @ [?bp]) c) = Suc n" unfolding pth using pb(1) by simp
    have mem: "\<forall>u\<in>set (path_to (prev @ [?bp]) c). u < T" unfolding pth using pb(2) c by simp
    have lst: "last (path_to (prev @ [?bp]) c) = c" unfolding pth by simp
    from len mem lst sc opt
    show "length (path_to (prev @ [?bp]) c) = Suc n
            \<and> (\<forall>u\<in>set (path_to (prev @ [?bp]) c). u < T)
            \<and> last (path_to (prev @ [?bp]) c) = c
            \<and> seq_score I Tr E (path_to (prev @ [?bp]) c) = map fst ?cells ! c
            \<and> (\<forall>q. length q = Suc n \<and> (\<forall>u\<in>set q. u < T) \<and> last q = c
                  \<longrightarrow> seq_score I Tr E q \<le> map fst ?cells ! c
                      \<and> (before q (path_to (prev @ [?bp]) c)
                           \<longrightarrow> seq_score I Tr E q < map fst ?cells ! c))"
      by blast
  qed
  have l1: "length (map fst ?cells) = T" by (simp add: pure_cells_def)
  have l2: "length (prev @ [?bp]) = Suc n - 1" using lp n by simp
  from l1 l2 cell show ?thesis unfolding viterbi_inv_def by blast
qed

lemma trellis_Suc:
  assumes "0 < n"
  shows "trellis si st se T (Suc n)
     = bind_result (trellis si st se T n) (\<lambda>s. trellis_step st se T s n)"
proof -
  from assms have up: "[1..<Suc n] = [1..<n] @ [n]" by (simp add: Suc_leI)
  show ?thesis
    unfolding trellis_def up foldM_append
    by (cases "first_column si se T") (simp_all add: bind_result_def split: sum.splits)
qed

lemma trellis_invariant:
  assumes T: "0 < T"
    and si: "\<And>i. i < T \<Longrightarrow> si i = Inr (I i)"
    and st: "\<And>p c. p < T \<Longrightarrow> c < T \<Longrightarrow> st p c = Inr (Tr p c)"
    and se: "\<And>i t. i < T \<Longrightarrow> t < N \<Longrightarrow> se i t = Inr (E i t)"
  shows "0 < n \<Longrightarrow> n \<le> N
     \<Longrightarrow> \<exists>col prev. trellis si st se T n = Inr (col, prev) \<and> viterbi_inv I Tr E T n col prev"
proof (induction n)
  case 0
  then show ?case by simp
next
  case (Suc n)
  show ?case
  proof (cases "n = 0")
    case True
    from Suc.prems have "0 < N" by simp
    then have "first_column si se T = Inr (map (\<lambda>i. I i + E i 0) [0..<T])"
      by (intro first_column_pure) (simp_all add: si se)
    then have "trellis si st se T (Suc 0) = Inr (map (\<lambda>i. I i + E i 0) [0..<T], [])"
      by (simp add: trellis_def)
    with viterbi_inv_first [of I Tr E T] True show ?thesis by auto
  next
    case False
    then have n: "0 < n" by simp
    from Suc.prems have nN: "n < N" by simp
    from Suc.IH n nN obtain col prev where
      tr: "trellis si st se T n = Inr (col, prev)" and inv: "viterbi_inv I Tr E T n col prev"
      by auto
    have nc: "next_column st se T col n = Inr (pure_cells Tr E T col n)"
      by (intro next_column_pure T) (simp_all add: st se nN)
    have "trellis si st se T (Suc n)
        = Inr (map fst (pure_cells Tr E T col n), prev @ [map snd (pure_cells Tr E T col n)])"
      unfolding trellis_Suc [OF n] tr by (simp add: trellis_step_def nc)
    with viterbi_inv_step [OF inv n T] show ?thesis by auto
  qed
qed

lemma viterbi_optimal:
  assumes T: "0 < T" and N: "0 < N"
    and si: "\<And>i. i < T \<Longrightarrow> si i = Inr (I i)"
    and st: "\<And>p c. p < T \<Longrightarrow> c < T \<Longrightarrow> st p c = Inr (Tr p c)"
    and se: "\<And>i t. i < T \<Longrightarrow> t < N \<Longrightarrow> se i t = Inr (E i t)"
  shows "\<exists>best. viterbi si st se T N = Inr best \<and> length best = N \<and> (\<forall>t\<in>set best. t < T)
     \<and> (\<forall>q. length q = N \<and> (\<forall>u\<in>set q. u < T)
           \<longrightarrow> seq_score I Tr E q \<le> seq_score I Tr E best
               \<and> (before q best \<longrightarrow> seq_score I Tr E q < seq_score I Tr E best))"
proof -
  from trellis_invariant [of T si I st Tr N se E N, OF T si st se] N
  obtain col prev where tr: "trellis si st se T N = Inr (col, prev)"
    and inv: "viterbi_inv I Tr E T N col prev" by auto
  from inv have lc: "length col = T" by (simp add: viterbi_inv_def)
  with T have ne: "col \<noteq> []" by auto
  let ?l = "first_max_index col"
  note fm = first_max_index_props [OF ne]
  from fm lc have l: "?l < T" by simp
  let ?best = "path_to prev ?l"
  have v: "viterbi si st se T N = Inr ?best"
    using N ne by (simp add: viterbi_def tr np_argmax_def path_to_def)
  from inv l have b: "length ?best = N" "\<forall>u\<in>set ?best. u < T" "last ?best = ?l"
    "seq_score I Tr E ?best = col ! ?l"
    by (simp_all add: viterbi_inv_def)
  from b(1) N have bne: "?best \<noteq> []" by auto
  have opt: "seq_score I Tr E q \<le> seq_score I Tr E ?best
      \<and> (before q ?best \<longrightarrow> seq_score I Tr E q < seq_score I Tr E ?best)"
    if q: "length q = N" "\<forall>u\<in>set q. u < T" for q
  proof -
    from q(1) N have qne: "q \<noteq> []" by auto
    define h where "h = last q"
    from q(2) qne have h: "h < T" by (simp add: h_def)
    from inv h q have ih: "seq_score I Tr E q \<le> col ! h"
      "before q (path_to prev h) \<Longrightarrow> seq_score I Tr E q < col ! h"
      by (simp_all add: viterbi_inv_def h_def)
    from fm lc h have le: "col ! h \<le> col ! ?l" by simp
    have strict: "seq_score I Tr E q < col ! ?l" if bf: "before q ?best"
    proof -
      from append_butlast_last_id [OF qne] have q': "q = butlast q @ [h]" by (simp add: h_def)
      from append_butlast_last_id [OF bne] b(3)
      have p': "?best = butlast ?best @ [?l]" by simp
      from bf have "before (butlast q @ [h]) (butlast ?best @ [?l])" using q' p' by simp
      then have "h < ?l \<or> h = ?l" by (auto simp: before_snoc)
      then show ?thesis
      proof
        assume "h < ?l"
        with fm have "col ! h < col ! ?l" by simp
        with ih(1) show ?thesis by simp
      next
        assume e: "h = ?l"
        with bf have "before q (path_to prev h)" by simp
        with ih(2) have "seq_score I Tr E q < col ! h" by blast
        with e show ?thesis by simp
      qed
    qed
    from ih(1) le strict show ?thesis unfolding b(4) by auto
  qed
  from v b(1,2) opt show ?thesis by blast
qed

lemma all_paths_set:
  "set (all_paths T n) = {q. length q = n \<and> (\<forall>u\<in>set q. u < T)}"
proof (induction n)
  case 0
  show ?case by auto
next
  case (Suc n)
  show ?case
  proof (rule set_eqI)
    fix q :: "nat list"
    show "q \<in> set (all_paths T (Suc n)) \<longleftrightarrow> q \<in> {q. length q = Suc n \<and> (\<forall>u\<in>set q. u < T)}"
    proof
      assume "q \<in> set (all_paths T (Suc n))"
      then obtain t p where "t < T" "p \<in> set (all_paths T n)" "q = p @ [t]" by auto
      with Suc.IH show "q \<in> {q. length q = Suc n \<and> (\<forall>u\<in>set q. u < T)}" by auto
    next
      assume a: "q \<in> {q. length q = Suc n \<and> (\<forall>u\<in>set q. u < T)}"
      then have qne: "q \<noteq> []" by auto
      from append_butlast_last_id [OF qne] have qq: "q = butlast q @ [last q]" by simp
      from a qne have l: "last q < T" by simp
      from a have "butlast q \<in> {q. length q = n \<and> (\<forall>u\<in>set q. u < T)}"
        by (auto dest: in_set_butlastD)
      with Suc.IH have "butlast q \<in> set (all_paths T n)" by simp
      with l have "butlast q @ [last q] \<in> set (all_paths T (Suc n))" by auto
      with qq show "q \<in> set (all_paths T (Suc n))" by simp
    qed
  qed
qed

lemma all_paths_split:
  "r \<in> set (all_paths T n)
     \<Longrightarrow> \<exists>ys zs. all_paths T n = ys @ r # zs \<and> (\<forall>q\<in>set ys. before q r)"
proof (induction n arbitrary: r)
  case 0
  then have "all_paths T 0 = [] @ r # []" by simp
  then show ?case by (metis empty_iff empty_set)
next
  case (Suc n)
  let ?F = "\<lambda>t. map (\<lambda>p. p @ [t]) (all_paths T n)"
  from Suc.prems obtain t r' where t: "t < T" and r': "r' \<in> set (all_paths T n)"
    and r: "r = r' @ [t]" by auto
  from Suc.IH [OF r'] obtain ys' zs' where sp: "all_paths T n = ys' @ r' # zs'"
    and bf: "\<forall>q\<in>set ys'. before q r'" by blast
  from t have up: "[0..<T] = [0..<t] @ t # [Suc t..<T]"
    by (metis le_add1 less_imp_add_positive upt_add_eq_append upt_conv_Cons zero_le add_0)
  have Ft: "?F t = map (\<lambda>p. p @ [t]) ys' @ r # map (\<lambda>p. p @ [t]) zs'"
    by (simp add: sp r)
  have "all_paths T (Suc n)
      = (concat (map ?F [0..<t]) @ map (\<lambda>p. p @ [t]) ys') @ r # (map (\<lambda>p. p @ [t]) zs'
          @ concat (map ?F [Suc t..<T]))"
    unfolding all_paths.simps up map_append concat_append list.map concat.simps Ft by simp
  moreover have "\<forall>q\<in>set (concat (map ?F [0..<t]) @ map (\<lambda>p. p @ [t]) ys'). before q r"
    using bf by (auto simp: r before_snoc)
  ultimately show ?case by blast
qed

lemma arg_first_max_stays:
  "\<forall>z\<in>set zs. f z \<le> f r \<Longrightarrow> arg_first_max f r zs = r"
  by (induction zs) auto

lemma arg_first_max_char:
  "b # xs = ys @ r # zs \<Longrightarrow> \<forall>y\<in>set ys. f y < f r \<Longrightarrow> \<forall>z\<in>set zs. f z \<le> f r
     \<Longrightarrow> arg_first_max f b xs = r"
proof (induction xs arbitrary: b ys)
  case Nil
  then have "ys = []" "b = r" "zs = []" by (auto simp: Cons_eq_append_conv)
  then show ?case by simp
next
  case (Cons x xs)
  show ?case
  proof (cases ys)
    case Nil
    with Cons.prems have "b = r" "x # xs = zs" by auto
    with Cons.prems(3) show ?thesis using arg_first_max_stays [of zs f r] by simp
  next
    case (Cons y ys')
    with Cons.prems(1) have hb: "b = y" and rest: "x # xs = ys' @ r # zs" by auto
    let ?b' = "if f b < f x then x else b"
    show ?thesis
    proof (cases ys')
      case Nil
      with rest have xr: "x = r" "xs = zs" by auto
      from Cons.prems(2) \<open>ys = y # ys'\<close> hb have "f b < f r" by simp
      with xr Cons.prems(3) show ?thesis using arg_first_max_stays [of zs f r] by simp
    next
      case (Cons y' ys'')
      with rest have xy: "x = y'" and rest': "xs = ys'' @ r # zs" by auto
      have e: "?b' # xs = (?b' # ys'') @ r # zs" using rest' by simp
      have lt: "\<forall>y\<in>set (?b' # ys''). f y < f r"
        using Cons.prems(2) \<open>ys = y # ys'\<close> Cons hb xy by auto
      from Cons.IH [OF e lt Cons.prems(3)] show ?thesis by simp
    qed
  qed
qed

lemma brute_force_first_max:
  assumes r: "length r = N" "\<forall>u\<in>set r. u < T"
    and opt: "\<And>q. length q = N \<Longrightarrow> \<forall>u\<in>set q. u < T
        \<Longrightarrow> f q \<le> f r \<and> (before q r \<longrightarrow> f q < f r)"
  shows "brute_force f T N = Some r"
proof -
  from r have "r \<in> set (all_paths T N)" by (simp add: all_paths_set)
  from all_paths_split [OF this] obtain ys zs where sp: "all_paths T N = ys @ r # zs"
    and bf: "\<forall>q\<in>set ys. before q r" by blast
  have mem: "\<And>q. q \<in> set (all_paths T N) \<Longrightarrow> length q = N \<and> (\<forall>u\<in>set q. u < T)"
    by (simp add: all_paths_set)
  have a: "\<forall>y\<in>set ys. f y < f r"
  proof
    fix y assume y: "y \<in> set ys"
    then have "y \<in> set (all_paths T N)" by (simp add: sp)
    from mem [OF this] opt [of y] bf y show "f y < f r" by blast
  qed
  have b: "\<forall>z\<in>set zs. f z \<le> f r"
  proof
    fix z assume "z \<in> set zs"
    then have "z \<in> set (all_paths T N)" by (simp add: sp)
    from mem [OF this] opt [of z] show "f z \<le> f r" by blast
  qed
  have "all_paths T N \<noteq> []" using sp by simp
  then obtain p ps where pp: "all_paths T N = p # ps" by (cases "all_paths T N") auto
  with sp have "p # ps = ys @ r # zs" by simp
  from arg_first_max_char [OF this a b] show ?thesis by (simp add: brute_force_def pp)
qed

section \<open>The potentials of the two decoders\<close>

lemma Inr_the_score: "r = Inr v \<Longrightarrow> r = Inr (the_score r)"
  by (simp add: the_score_def)

lemma py_get_nat: "i < length xs \<Longrightarrow> py_get xs (int i) = Inr (xs ! i)"
  by (simp add: py_get_def)

lemma index_of_lt: "index_of ix obj < int (length ix)"
proof (cases "obj \<in> set ix")
  case True
  from index_of_present [OF True] show ?thesis by linarith
next
  case False
  then have "index_of ix obj = -1" by (simp add: index_of_absent)
  then show ?thesis by simp
qed

lemma py_get_defined:
  "- int (length xs) \<le> i \<Longrightarrow> i < int (length xs) \<Longrightarrow> \<exists>v. py_get xs i = Inr v"
  by (auto simp: py_get_def)

lemma hmm_word_index_range:
  "- 1 \<le> hmm_word_index m toks t \<and> hmm_word_index m toks t < int (length (word_indexer m))"
  using index_of_ge index_of_lt by (simp add: hmm_word_index_def Let_def)

lemma hmm_potentials_defined:
  assumes ws: "hmm_well_shaped m"
  shows "i < length (init_log_probs m) \<Longrightarrow> \<exists>v. hmm_init m i = Inr v"
    and "p < length (init_log_probs m) \<Longrightarrow> c < length (init_log_probs m)
           \<Longrightarrow> \<exists>v. hmm_transition m p c = Inr v"
    and "i < length (init_log_probs m) \<Longrightarrow> \<exists>v. hmm_emission m toks i t = Inr v"
proof -
  let ?T = "length (init_log_probs m)"
  let ?V = "length (word_indexer m)"
  from ws have V: "0 < ?V" and lt: "length (transition_log_probs m) = ?T"
    and rt: "\<forall>row\<in>set (transition_log_probs m). length row = ?T"
    and le: "length (emission_log_probs m) = ?T"
    and re: "\<forall>row\<in>set (emission_log_probs m). length row = ?V"
    by (simp_all add: hmm_well_shaped_def Let_def list_all_iff)
  show "i < ?T \<Longrightarrow> \<exists>v. hmm_init m i = Inr v"
    by (simp add: hmm_init_def py_get_nat)
  show "p < ?T \<Longrightarrow> c < ?T \<Longrightarrow> \<exists>v. hmm_transition m p c = Inr v"
  proof -
    assume p: "p < ?T" and c: "c < ?T"
    from p lt rt have "length (transition_log_probs m ! p) = ?T" by simp
    with p c lt show ?thesis
      by (simp add: hmm_transition_def py_get_nat bind_result_def)
  qed
  show "i < ?T \<Longrightarrow> \<exists>v. hmm_emission m toks i t = Inr v"
  proof -
    assume i: "i < ?T"
    from i le re have lr: "length (emission_log_probs m ! i) = ?V" by simp
    from V have V1: "1 \<le> int ?V" by linarith
    from hmm_word_index_range [of m toks t] V1 lr
    have "\<exists>v. py_get (emission_log_probs m ! i) (hmm_word_index m toks t) = Inr v"
      by (intro py_get_defined) linarith+
    with i le show ?thesis
      by (simp add: hmm_emission_def py_get_nat bind_result_def)
  qed
qed

lemma maybe_add_feature_False:
  assumes "maybe_add_feature feats ix False feat = (feats', ix')"
  shows "ix' = ix \<and> (\<forall>f\<in>set feats'. f \<in> set feats \<or> f < length ix)"
proof (cases "index_of ix feat = -1")
  case True
  with assms show ?thesis by (auto simp: maybe_add_feature_def)
next
  case False
  then have "feat \<in> set ix" by (simp add: index_of_absent)
  from index_of_present [OF this] have "nat (index_of ix feat) < length ix" by simp
  with assms False show ?thesis by (auto simp: maybe_add_feature_def)
qed

lemma add_features_False:
  "add_features feats ix False fs = (feats', ix')
     \<Longrightarrow> ix' = ix \<and> (\<forall>f\<in>set feats'. f \<in> set feats \<or> f < length ix)"
proof (induction fs arbitrary: feats)
  case Nil
  then show ?case by simp
next
  case (Cons a fs)
  obtain f1 i1 where m: "maybe_add_feature feats ix False a = (f1, i1)"
    by (cases "maybe_add_feature feats ix False a")
  from maybe_add_feature_False [OF m] have i1: "i1 = ix"
    and f1: "\<forall>f\<in>set f1. f \<in> set feats \<or> f < length ix" by auto
  from Cons.prems m i1 have "add_features f1 ix False fs = (feats', ix')" by simp
  from Cons.IH [OF this] f1 show ?case by auto
qed

lemma extract_False_frame:
  "snd (extract_emission_features toks w tag ix False) = ix"
proof (cases "length toks \<le> w")
  case True
  then show ?thesis by (simp add: extract_emission_features_def)
next
  case False
  let ?cw = "word (toks ! w)"
  obtain f1 i1 where a1: "add_features [] ix False
      (concat (map (context_features toks w tag) [-1, 0, 1])
       @ concat (map (ngram_features ?cw tag) [1, 2, 3])) = (f1, i1)"
    by (cases "add_features [] ix False
      (concat (map (context_features toks w tag) [-1, 0, 1])
       @ concat (map (ngram_features ?cw tag) [1, 2, 3]))")
  from add_features_False [OF a1] have i1: "i1 = ix" by simp
  obtain f2 i2 where a2: "add_features f1 ix False
      [tag @ '':IsCap='' @ repr_bool (isupper (hd ?cw)),
       tag @ '':WordShape='' @ repr_list (word_shape ?cw)] = (f2, i2)"
    by (cases "add_features f1 ix False
      [tag @ '':IsCap='' @ repr_bool (isupper (hd ?cw)),
       tag @ '':WordShape='' @ repr_list (word_shape ?cw)]")
  from add_features_False [OF a2] have i2: "i2 = ix" by simp
  from False a1 a2 i1 i2 show ?thesis
    by (simp add: extract_emission_features_def Let_def)
qed

lemma extract_False_ok:
  assumes w: "w < length toks" and ne: "word (toks ! w) \<noteq> []"
  shows "\<exists>feats. extract_emission_features toks w tag ix False = (Inr feats, ix)
           \<and> (\<forall>f\<in>set feats. f < length ix)"
proof -
  let ?cw = "word (toks ! w)"
  obtain f1 i1 where a1: "add_features [] ix False
      (concat (map (context_features toks w tag) [-1, 0, 1])
       @ concat (map (ngram_features ?cw tag) [1, 2, 3])) = (f1, i1)"
    by (cases "add_features [] ix False
      (concat (map (context_features toks w tag) [-1, 0, 1])
       @ concat (map (ngram_features ?cw tag) [1, 2, 3]))")
  from add_features_False [OF a1] have i1: "i1 = ix" and f1: "\<forall>f\<in>set f1. f < length ix"
    by auto
  obtain f2 i2 where a2: "add_features f1 ix False
      [tag @ '':IsCap='' @ repr_bool (isupper (hd ?cw)),
       tag @ '':WordShape='' @ repr_list (word_shape ?cw)] = (f2, i2)"
    by (cases "add_features f1 ix False
      [tag @ '':IsCap='' @ repr_bool (isupper (hd ?cw)),
       tag @ '':WordShape='' @ repr_list (word_shape ?cw)]")
  from add_features_False [OF a2] f1 have i2: "i2 = ix" and f2: "\<forall>f\<in>set f2. f < length ix"
    by auto
  from w ne a1 a2 i1 i2 have "extract_emission_features toks w tag ix False = (Inr f2, ix)"
    by (simp add: extract_emission_features_def Let_def)
  with f2 show ?thesis by blast
qed

lemma mapM_state_pure:
  "(\<And>x. x \<in> set xs \<Longrightarrow> f x s = (Inr (g x), s))
     \<Longrightarrow> mapM_state f xs s = (Inr (map g xs), s)"
  by (induction xs) simp_all

lemma mapM_state_frame:
  "(\<And>x. x \<in> set xs \<Longrightarrow> snd (f x s) = s) \<Longrightarrow> snd (mapM_state f xs s) = s"
proof (induction xs)
  case Nil
  show ?case by simp
next
  case (Cons x xs)
  from Cons.prems have fx: "snd (f x s) = s" by simp
  from Cons have ih: "snd (mapM_state f xs s) = s" by simp
  obtain r s' where r: "f x s = (r, s')" by (cases "f x s")
  with fx have s': "s' = s" by simp
  obtain r2 s2 where r2: "mapM_state f xs s = (r2, s2)" by (cases "mapM_state f xs s")
  with ih have s2: "s2 = s" by simp
  show ?case using r s' r2 s2 by (simp split: sum.splits)
qed

lemma build_feature_cache_frame:
  "snd (build_feature_cache toks tix ix False) = ix"
  unfolding build_feature_cache_def
proof (rule mapM_state_frame)
  fix w
  show "snd (mapM_state (\<lambda>tag_idx ix.
           case get_object tix tag_idx of None \<Rightarrow> (Inl TypeError, ix)
           | Some tag \<Rightarrow> extract_emission_features toks w tag ix False)
         [0..<length tix] ix) = ix"
    by (rule mapM_state_frame) (simp add: extract_False_frame split: option.splits)
qed

lemma build_feature_cache_ok:
  assumes ne: "\<forall>tok\<in>set toks. word tok \<noteq> []"
  shows "build_feature_cache toks tix ix False
     = (Inr (map (\<lambda>w. map (\<lambda>t. features_of toks ix w (tix ! t)) [0..<length tix])
           [0..<length toks]), ix)"
  unfolding build_feature_cache_def
proof (rule mapM_state_pure)
  fix w assume "w \<in> set [0..<length toks]"
  then have w: "w < length toks" by simp
  with ne have wne: "word (toks ! w) \<noteq> []" by simp
  show "mapM_state (\<lambda>tag_idx ix.
           case get_object tix tag_idx of None \<Rightarrow> (Inl TypeError, ix)
           | Some tag \<Rightarrow> extract_emission_features toks w tag ix False)
         [0..<length tix] ix
       = (Inr (map (\<lambda>t. features_of toks ix w (tix ! t)) [0..<length tix]), ix)"
  proof (rule mapM_state_pure)
    fix t assume "t \<in> set [0..<length tix]"
    then have t: "t < length tix" by simp
    from extract_False_ok [OF w wne, of "tix ! t" ix] obtain feats where
      "extract_emission_features toks w (tix ! t) ix False = (Inr feats, ix)" by blast
    then show "(case get_object tix t of None \<Rightarrow> (Inl TypeError, ix)
           | Some tag \<Rightarrow> extract_emission_features toks w tag ix False)
         = (Inr (features_of toks ix w (tix ! t)), ix)"
      using t by (simp add: get_object_def features_of_def)
  qed
qed

lemma features_of_bound:
  "w < length toks \<Longrightarrow> word (toks ! w) \<noteq> [] \<Longrightarrow> \<forall>f\<in>set (features_of toks ix w tag). f < length ix"
  using extract_False_ok [of w toks tag ix] by (auto simp: features_of_def)

lemma score_defined:
  "\<forall>f\<in>set feats. f < length weights
     \<Longrightarrow> score weights feats = Inr (sum_list (map (\<lambda>f. weights ! f) feats))"
proof -
  assume a: "\<forall>f\<in>set feats. f < length weights"
  have "mapM (\<lambda>f. py_get weights (int f)) feats = Inr (map (\<lambda>f. weights ! f) feats)"
    by (rule mapM_Inr) (simp add: a py_get_nat)
  then show ?thesis by (simp add: score_def)
qed

lemma crf_potentials_defined:
  assumes ne: "\<forall>tok\<in>set toks. word tok \<noteq> []"
    and wl: "length (feature_indexer m) \<le> length (crf_feature_weights m)"
  shows "i < length (crf_tag_indexer m) \<Longrightarrow> \<exists>v. score_init (decode_scorer m toks) i = Inr v"
    and "p < length (crf_tag_indexer m) \<Longrightarrow> c < length (crf_tag_indexer m)
           \<Longrightarrow> \<exists>v. score_transition (decode_scorer m toks) p c = Inr v"
    and "i < length (crf_tag_indexer m) \<Longrightarrow> t < length toks
           \<Longrightarrow> \<exists>v. score_emission (decode_scorer m toks) (int i) (int t) = Inr v"
proof -
  let ?tix = "crf_tag_indexer m"
  let ?ix = "feature_indexer m"
  show "i < length ?tix \<Longrightarrow> \<exists>v. score_init (decode_scorer m toks) i = Inr v"
    by (simp add: score_init_def decode_scorer_def get_object_def)
  show "p < length ?tix \<Longrightarrow> c < length ?tix
           \<Longrightarrow> \<exists>v. score_transition (decode_scorer m toks) p c = Inr v"
    by (simp add: score_transition_def decode_scorer_def get_object_def)
  show "i < length ?tix \<Longrightarrow> t < length toks
           \<Longrightarrow> \<exists>v. score_emission (decode_scorer m toks) (int i) (int t) = Inr v"
  proof -
    assume i: "i < length ?tix" and t: "t < length toks"
    from ne t have wne: "word (toks ! t) \<noteq> []" by simp
    from features_of_bound [OF t wne, of ?ix "?tix ! i"] wl
    have b: "\<forall>f\<in>set (features_of toks ?ix t (?tix ! i)). f < length (crf_feature_weights m)"
      by auto
    show ?thesis
      using i t score_defined [OF b]
      by (simp add: score_emission_def decode_scorer_def build_feature_cache_ok [OF ne]
          py_get_nat)
  qed
qed

lemma CrfNerModel_decode_unfold:
  assumes ne: "\<forall>tok\<in>set toks. word tok \<noteq> []"
  shows "CrfNerModel_decode m toks =
     (bind_result
        (viterbi (score_init (decode_scorer m toks)) (score_transition (decode_scorer m toks))
           (\<lambda>i token. score_emission (decode_scorer m toks) (int i) (int token))
           (length (crf_tag_indexer m)) (length toks))
        (\<lambda>best_indices. Inr (map (get_object (crf_tag_indexer m)) best_indices)), m)"
  by (simp add: CrfNerModel_decode_def decode_scorer_def build_feature_cache_ok [OF ne] Let_def)

section \<open>Claim C1\<close>

lemma hmm_decode_optimal:
  assumes toks: "toks \<noteq> []" and T: "init_log_probs m \<noteq> []" and ws: "hmm_well_shaped m"
  shows "\<exists>best. HmmNerModel_decode m toks = Inr (map (get_object (hmm_tag_indexer m)) best)
     \<and> length best = length toks \<and> (\<forall>t\<in>set best. t < length (init_log_probs m))
     \<and> (\<forall>q. length q = length toks \<and> (\<forall>u\<in>set q. u < length (init_log_probs m))
           \<longrightarrow> hmm_seq_score m toks q \<le> hmm_seq_score m toks best
               \<and> (before q best \<longrightarrow> hmm_seq_score m toks q < hmm_seq_score m toks best))"
proof -
  let ?T = "length (init_log_probs m)"
  from T have T0: "0 < ?T" by simp
  from toks have N0: "0 < length toks" by simp
  have si: "\<And>i. i < ?T \<Longrightarrow> hmm_init m i = Inr (the_score (hmm_init m i))"
    using hmm_potentials_defined(1) [OF ws] Inr_the_score by blast
  have st: "\<And>p c. p < ?T \<Longrightarrow> c < ?T
      \<Longrightarrow> hmm_transition m p c = Inr (the_score (hmm_transition m p c))"
    using hmm_potentials_defined(2) [OF ws] Inr_the_score by blast
  have se: "\<And>i t. i < ?T \<Longrightarrow> t < length toks
      \<Longrightarrow> hmm_emission m toks i t = Inr (the_score (hmm_emission m toks i t))"
    using hmm_potentials_defined(3) [OF ws] Inr_the_score by blast
  from viterbi_optimal [of ?T "length toks" "hmm_init m" "\<lambda>i. the_score (hmm_init m i)"
      "hmm_transition m" "\<lambda>p c. the_score (hmm_transition m p c)"
      "hmm_emission m toks" "\<lambda>i t. the_score (hmm_emission m toks i t)", OF T0 N0 si st se]
  obtain best where v: "viterbi (hmm_init m) (hmm_transition m) (hmm_emission m toks) ?T
        (length toks) = Inr best"
    and rest: "length best = length toks \<and> (\<forall>t\<in>set best. t < ?T)
     \<and> (\<forall>q. length q = length toks \<and> (\<forall>u\<in>set q. u < ?T)
           \<longrightarrow> hmm_seq_score m toks q \<le> hmm_seq_score m toks best
               \<and> (before q best \<longrightarrow> hmm_seq_score m toks q < hmm_seq_score m toks best))"
    unfolding hmm_seq_score_def by blast
  from v have "HmmNerModel_decode m toks = Inr (map (get_object (hmm_tag_indexer m)) best)"
    by (simp add: HmmNerModel_decode_def)
  with rest show ?thesis by blast
qed

lemma crf_decode_optimal:
  assumes toks: "toks \<noteq> []" and T: "crf_tag_indexer m \<noteq> []"
    and ne: "\<forall>tok\<in>set toks. word tok \<noteq> []"
    and wl: "length (feature_indexer m) \<le> length (crf_feature_weights m)"
  shows "\<exists>best. fst (CrfNerModel_decode m toks) = Inr (map (get_object (crf_tag_indexer m)) best)
     \<and> length best = length toks \<and> (\<forall>t\<in>set best. t < length (crf_tag_indexer m))
     \<and> (\<forall>q. length q = length toks \<and> (\<forall>u\<in>set q. u < length (crf_tag_indexer m))
           \<longrightarrow> crf_seq_score m toks q \<le> crf_seq_score m toks best
               \<and> (before q best \<longrightarrow> crf_seq_score m toks q < crf_seq_score m toks best))"
proof -
  let ?T = "length (crf_tag_indexer m)"
  let ?sc = "decode_scorer m toks"
  from T have T0: "0 < ?T" by simp
  from toks have N0: "0 < length toks" by simp
  have si: "\<And>i. i < ?T \<Longrightarrow> score_init ?sc i = Inr (the_score (score_init ?sc i))"
    using crf_potentials_defined(1) [OF ne wl] Inr_the_score by blast
  have st: "\<And>p c. p < ?T \<Longrightarrow> c < ?T
      \<Longrightarrow> score_transition ?sc p c = Inr (the_score (score_transition ?sc p c))"
    using crf_potentials_defined(2) [OF ne wl] Inr_the_score by blast
  have se: "\<And>i t. i < ?T \<Longrightarrow> t < length toks
      \<Longrightarrow> score_emission ?sc (int i) (int t) = Inr (the_score (score_emission ?sc (int i) (int t)))"
    using crf_potentials_defined(3) [OF ne wl] Inr_the_score by blast
  from viterbi_optimal [of ?T "length toks" "score_init ?sc" "\<lambda>i. the_score (score_init ?sc i)"
      "score_transition ?sc" "\<lambda>p c. the_score (score_transition ?sc p c)"
      "\<lambda>i t. score_emission ?sc (int i) (int t)"
      "\<lambda>i t. the_score (score_emission ?sc (int i) (int t))", OF T0 N0 si st se]
  obtain best where v: "viterbi (score_init ?sc) (score_transition ?sc)
        (\<lambda>i t. score_emission ?sc (int i) (int t)) ?T (length toks) = Inr best"
    and rest: "length best = length toks \<and> (\<forall>t\<in>set best. t < ?T)
     \<and> (\<forall>q. length q = length toks \<and> (\<forall>u\<in>set q. u < ?T)
           \<longrightarrow> crf_seq_score m toks q \<le> crf_seq_score m toks best
               \<and> (before q best \<longrightarrow> crf_seq_score m toks q < crf_seq_score m toks best))"
    unfolding crf_seq_score_def by blast
  from v have "fst (CrfNerModel_decode m toks) = Inr (map (get_object (crf_tag_indexer m)) best)"
    by (simp add: CrfNerModel_decode_unfold [OF ne])
  with rest show ?thesis by blast
qed

text \<open>
  C1: for a non-empty token sequence, \<open>HmmNerModel.decode\<close> (on tables of the documented
  shapes, with at least one tag) and \<open>CrfNerModel.decode\<close> (with at least one tag, no
  empty word, and a weight for every registered feature) return the tags of a sequence
  \<open>best\<close> of one tag index per token whose score, the initial potential of its first
  tag plus the emission potentials of all positions plus the transition potentials of
  all adjacent pairs, is the maximum over all \<open>T ^ N\<close> tag sequences; \<open>best\<close> is the
  first maximum that brute-force enumeration meets (last position varying slowest),
  because every \<open>argmax\<close> of the loop takes the lowest index among equal scores.
\<close>

theorem decode_returns_best_sequence:
  "(sentence_tokens \<noteq> [] \<and> init_log_probs hmm \<noteq> [] \<and> hmm_well_shaped hmm \<longrightarrow>
      (\<exists>best. HmmNerModel_decode hmm sentence_tokens
                 = Inr (map (get_object (hmm_tag_indexer hmm)) best)
         \<and> length best = length sentence_tokens
         \<and> (\<forall>t\<in>set best. t < length (init_log_probs hmm))
         \<and> (\<forall>q. length q = length sentence_tokens
                  \<and> (\<forall>u\<in>set q. u < length (init_log_probs hmm))
               \<longrightarrow> hmm_seq_score hmm sentence_tokens q \<le> hmm_seq_score hmm sentence_tokens best)
         \<and> brute_force (hmm_seq_score hmm sentence_tokens) (length (init_log_probs hmm))
              (length sentence_tokens) = Some best))
   \<and> (sentence_tokens \<noteq> [] \<and> crf_tag_indexer crf \<noteq> []
        \<and> (\<forall>tok\<in>set sentence_tokens. word tok \<noteq> [])
        \<and> length (feature_indexer crf) \<le> length (crf_feature_weights crf) \<longrightarrow>
      (\<exists>best. fst (CrfNerModel_decode crf sentence_tokens)
                 = Inr (map (get_object (crf_tag_indexer crf)) best)
         \<and> length best = length sentence_tokens
         \<and> (\<forall>t\<in>set best. t < length (crf_tag_indexer crf))
         \<and> (\<forall>q. length q = length sentence_tokens
                  \<and> (\<forall>u\<in>set q. u < length (crf_tag_indexer crf))
               \<longrightarrow> crf_seq_score crf sentence_tokens q \<le> crf_seq_score crf sentence_tokens best)
         \<and> brute_force (crf_seq_score crf sentence_tokens) (length (crf_tag_indexer crf))
              (length sentence_tokens) = Some best))"
proof (intro conjI impI)
  assume a: "sentence_tokens \<noteq> [] \<and> init_log_probs hmm \<noteq> [] \<and> hmm_well_shaped hmm"
  from a hmm_decode_optimal [of sentence_tokens hmm] obtain best where
    d: "HmmNerModel_decode hmm sentence_tokens = Inr (map (get_object (hmm_tag_indexer hmm)) best)"
    and l: "length best = length sentence_tokens"
    and r: "\<forall>t\<in>set best. t < length (init_log_probs hmm)"
    and o: "\<And>q. length q = length sentence_tokens
              \<Longrightarrow> \<forall>u\<in>set q. u < length (init_log_probs hmm)
              \<Longrightarrow> hmm_seq_score hmm sentence_tokens q \<le> hmm_seq_score hmm sentence_tokens best
                  \<and> (before q best \<longrightarrow> hmm_seq_score hmm sentence_tokens q
                        < hmm_seq_score hmm sentence_tokens best)"
    by blast
  from brute_force_first_max [of best "length sentence_tokens" "length (init_log_probs hmm)"
      "hmm_seq_score hmm sentence_tokens", OF l r o]
  have "brute_force (hmm_seq_score hmm sentence_tokens) (length (init_log_probs hmm))
              (length sentence_tokens) = Some best" by simp
  with d l r o show "\<exists>best. HmmNerModel_decode hmm sentence_tokens
                 = Inr (map (get_object (hmm_tag_indexer hmm)) best)
         \<and> length best = length sentence_tokens
         \<and> (\<forall>t\<in>set best. t < length (init_log_probs hmm))
         \<and> (\<forall>q. length q = length sentence_tokens
                  \<and> (\<forall>u\<in>set q. u < length (init_log_probs hmm))
               \<longrightarrow> hmm_seq_score hmm sentence_tokens q \<le> hmm_seq_score hmm sentence_tokens best)
         \<and> brute_force (hmm_seq_score hmm sentence_tokens) (length (init_log_probs hmm))
              (length sentence_tokens) = Some best" by blast
next
  assume a: "sentence_tokens \<noteq> [] \<and> crf_tag_indexer crf \<noteq> []
        \<and> (\<forall>tok\<in>set sentence_tokens. word tok \<noteq> [])
        \<and> length (feature_indexer crf) \<le> length (crf_feature_weights crf)"
  from a crf_decode_optimal [of sentence_tokens crf] obtain best where
    d: "fst (CrfNerModel_decode crf sentence_tokens)
          = Inr (map (get_object (crf_tag_indexer crf)) best)"
    and l: "length best = length sentence_tokens"
    and r: "\<forall>t\<in>set best. t < length (crf_tag_indexer crf)"
    and o: "\<And>q. length q = length sentence_tokens
              \<Longrightarrow> \<forall>u\<in>set q. u < length (crf_tag_indexer crf)
              \<Longrightarrow> crf_seq_score crf sentence_tokens q \<le> crf_seq_score crf sentence_tokens best
                  \<and> (before q best \<longrightarrow> crf_seq_score crf sentence_tokens q
                        < crf_seq_score crf sentence_tokens best)"
    by blast
  from brute_force_first_max [of best "length sentence_tokens" "length (crf_tag_indexer crf)"
      "crf_seq_score crf sentence_tokens", OF l r o]
  have "brute_force (crf_seq_score crf sentence_tokens) (length (crf_tag_indexer crf))
              (length sentence_tokens) = Some best" by simp
  with d l r o show "\<exists>best. fst (CrfNerModel_decode crf sentence_tokens)
                 = Inr (map (get_object (crf_tag_indexer crf)) best)
         \<and> length best = length sentence_tokens
         \<and> (\<forall>t\<in>set best. t < length (crf_tag_indexer crf))
         \<and> (\<forall>q. length q = length sentence_tokens
                  \<and> (\<forall>u\<in>set q. u < length (crf_tag_indexer crf))
               \<longrightarrow> crf_seq_score crf sentence_tokens q \<le> crf_seq_score crf sentence_tokens best)
         \<and> brute_force (crf_seq_score crf sentence_tokens) (length (crf_tag_indexer crf))
              (length sentence_tokens) = Some best" by blast
qed

theorem decode_returns_best_sequence_witness:
  "(\<exists>best. HmmNerModel_decode example_hmm example_sentence
              = Inr (map (get_object (hmm_tag_indexer example_hmm)) best)
      \<and> brute_force (hmm_seq_score example_hmm example_sentence)
           (length (init_log_probs example_hmm)) (length example_sentence) = Some best)
   \<and> (\<exists>best. fst (CrfNerModel_decode example_crf example_sentence)
              = Inr (map (get_object (crf_tag_indexer example_crf)) best)
      \<and> brute_force (crf_seq_score example_crf example_sentence)
           (length (crf_tag_indexer example_crf)) (length example_sentence) = Some best)"
proof -
  have h1: "example_sentence \<noteq> [] \<and> init_log_probs example_hmm \<noteq> []
      \<and> hmm_well_shaped example_hmm"
    by (simp add: example_sentence_def example_hmm_def hmm_well_shaped_def)
  have h2: "example_sentence \<noteq> [] \<and> crf_tag_indexer example_crf \<noteq> []
        \<and> (\<forall>tok\<in>set example_sentence. word tok \<noteq> [])
        \<and> length (feature_indexer example_crf) \<le> length (crf_feature_weights example_crf)"
    by (simp add: example_sentence_def example_crf_def)
  from decode_returns_best_sequence [of example_sentence example_hmm example_crf] h1 h2
  show ?thesis by blast
qed

section \<open>Claim C5\<close>

lemma sum_list_upper:
  "(\<And>x. x \<in> set xs \<Longrightarrow> f x \<le> (c::real)) \<Longrightarrow> sum_list (map f xs) \<le> real (length xs) * c"
proof (induction xs)
  case Nil
  show ?case by simp
next
  case (Cons a xs)
  from Cons.prems have "f a \<le> c" by simp
  moreover from Cons have "sum_list (map f xs) \<le> real (length xs) * c" by simp
  ultimately show ?case by (simp add: algebra_simps)
qed

lemma sum_list_lower:
  "(\<And>x. x \<in> set xs \<Longrightarrow> (c::real) \<le> f x) \<Longrightarrow> real (length xs) * c \<le> sum_list (map f xs)"
proof (induction xs)
  case Nil
  show ?case by simp
next
  case (Cons a xs)
  from Cons.prems have "c \<le> f a" by simp
  moreover from Cons have "real (length xs) * c \<le> sum_list (map f xs)" by simp
  ultimately show ?case by (simp add: algebra_simps)
qed

lemma sum_list_nonpos:
  "(\<And>x. x \<in> set xs \<Longrightarrow> f x \<le> (0::real)) \<Longrightarrow> sum_list (map f xs) \<le> 0"
  using sum_list_upper [of xs f 0] by simp

lemma sum_list_nonpos_member:
  "(\<And>x. x \<in> set xs \<Longrightarrow> f x \<le> (0::real)) \<Longrightarrow> y \<in> set xs \<Longrightarrow> sum_list (map f xs) \<le> f y"
proof (induction xs)
  case Nil
  then show ?case by simp
next
  case (Cons a xs)
  from Cons.prems(1) have rest: "sum_list (map f xs) \<le> 0"
    by (intro sum_list_nonpos) simp
  from Cons.prems(1) have fa: "f a \<le> 0" by simp
  show ?case
  proof (cases "y = a")
    case True
    with rest show ?thesis by simp
  next
    case False
    with Cons.prems(2) have "y \<in> set xs" by simp
    with Cons.IH Cons.prems(1) have "sum_list (map f xs) \<le> f y" by simp
    with fa show ?thesis by simp
  qed
qed

lemma seq_score_replicate:
  assumes "0 < n" and "I t = 0" and "Tr t t = 0" and "\<And>i. i < n \<Longrightarrow> lo \<le> E t i"
  shows "real n * lo \<le> seq_score I Tr E (replicate n t)"
proof -
  have e: "map (\<lambda>i. E (replicate n t ! i) i) [0..<n] = map (\<lambda>i. E t i) [0..<n]"
    by (rule map_cong) simp_all
  have tr: "map (\<lambda>i. Tr (replicate n t ! (i - 1)) (replicate n t ! i)) [1..<n]
      = map (\<lambda>i. 0) [1..<n]"
    by (rule map_cong) (auto simp: assms(3))
  have "real (length [0..<n]) * lo \<le> sum_list (map (\<lambda>i. E t i) [0..<n])"
    by (rule sum_list_lower) (simp add: assms(4))
  then have "real n * lo \<le> sum_list (map (\<lambda>i. E t i) [0..<n])" by simp
  moreover have "replicate n t ! 0 = t" using assms(1) by simp
  ultimately show ?thesis
    unfolding seq_score_def length_replicate e tr using assms(2) by simp
qed

lemma seq_score_penalised:
  assumes n: "length q = n" "0 < n"
    and I: "I (q ! 0) \<le> 0"
    and Tr: "\<And>i. 1 \<le> i \<Longrightarrow> i < n \<Longrightarrow> Tr (q ! (i - 1)) (q ! i) \<le> 0"
    and E: "\<And>i. i < n \<Longrightarrow> E (q ! i) i \<le> hi"
    and pen: "I (q ! 0) \<le> - 1000 \<or> (\<exists>i. 1 \<le> i \<and> i < n \<and> Tr (q ! (i - 1)) (q ! i) \<le> - 1000)"
  shows "seq_score I Tr E q \<le> real n * hi - 1000"
proof -
  have e: "sum_list (map (\<lambda>i. E (q ! i) i) [0..<n]) \<le> real (length [0..<n]) * hi"
    by (rule sum_list_upper) (simp add: E)
  have t0: "sum_list (map (\<lambda>i. Tr (q ! (i - 1)) (q ! i)) [1..<n]) \<le> 0"
    by (rule sum_list_nonpos) (use Tr in auto)
  have "I (q ! 0) + sum_list (map (\<lambda>i. Tr (q ! (i - 1)) (q ! i)) [1..<n]) \<le> - 1000"
    using pen
  proof
    assume "I (q ! 0) \<le> - 1000"
    with t0 show ?thesis by simp
  next
    assume "\<exists>i. 1 \<le> i \<and> i < n \<and> Tr (q ! (i - 1)) (q ! i) \<le> - 1000"
    then obtain i where i: "1 \<le> i" "i < n" "Tr (q ! (i - 1)) (q ! i) \<le> - 1000" by blast
    then have mem: "i \<in> set [1..<n]" by simp
    have "sum_list (map (\<lambda>i. Tr (q ! (i - 1)) (q ! i)) [1..<n]) \<le> Tr (q ! (i - 1)) (q ! i)"
      by (rule sum_list_nonpos_member [OF _ mem]) (use Tr in auto)
    with i(3) I show ?thesis by simp
  qed
  with e show ?thesis using n by (simp add: seq_score_def)
qed

lemma crf_init_value:
  "i < length (crf_tag_indexer m)
     \<Longrightarrow> the_score (score_init (decode_scorer m toks) i)
         = (if isI (crf_tag_indexer m ! i) then - 1000 else 0)"
  by (simp add: score_init_def decode_scorer_def get_object_def the_score_def)

lemma crf_transition_value:
  "p < length (crf_tag_indexer m) \<Longrightarrow> c < length (crf_tag_indexer m)
     \<Longrightarrow> the_score (score_transition (decode_scorer m toks) p c)
         = (if bio_illegal (crf_tag_indexer m ! p) (crf_tag_indexer m ! c) then - 1000 else 0)"
  by (simp add: score_transition_def decode_scorer_def get_object_def the_score_def
      bio_illegal_def)

text \<open>
  C5, as stated, fails: the penalty for an illegal start or transition is the finite
  score \<open>-1000\<close>, which a feature weight can outweigh. With one feature of weight 5000
  the decoder tags the one-token sentence \<open>Alice\<close> with \<open>I-PER\<close>, and the sentence
  \<open>works Alice\<close> with \<open>O\<close> followed by \<open>I-PER\<close>.
\<close>

theorem decode_bio_illegal_counterexample:
  "fst (CrfNerModel_decode heavy_crf [\<lparr>word = ''Alice'', pos = ''NNP''\<rparr>])
     = Inr [Some ''I-PER'']
   \<and> isI ''I-PER''
   \<and> fst (CrfNerModel_decode heavy_crf
             [\<lparr>word = ''works'', pos = ''VBZ''\<rparr>, \<lparr>word = ''Alice'', pos = ''NNP''\<rparr>])
        = Inr [Some ''O'', Some ''I-PER'']
   \<and> bio_illegal ''O'' ''I-PER''"
  by code_simp

text \<open>
  C5, amended: when the tag set has a tag that is not an \<open>I-\<close> tag, no word is empty,
  every registered feature has a weight, and the emission scores of the sentence all lie
  in an interval \<open>[lo, hi]\<close> with \<open>N * (hi - lo) < 1000\<close> (\<open>N\<close> the number of tokens),
  the tag sequence that \<open>CrfNerModel.decode\<close> produces does not begin with an \<open>I-\<close>
  tag and contains no BIO-illegal adjacent pair.
\<close>

theorem decode_bio_legal:
  assumes toks: "toks \<noteq> []"
    and ne: "\<forall>tok\<in>set toks. word tok \<noteq> []"
    and wl: "length (feature_indexer m) \<le> length (crf_feature_weights m)"
    and nonI: "\<exists>tag\<in>set (crf_tag_indexer m). \<not> isI tag"
    and bound: "\<forall>i<length (crf_tag_indexer m). \<forall>t<length toks.
        lo \<le> the_score (score_emission (decode_scorer m toks) (int i) (int t))
        \<and> the_score (score_emission (decode_scorer m toks) (int i) (int t)) \<le> hi"
    and small: "real (length toks) * (hi - lo) < 1000"
  shows "\<exists>tags. fst (CrfNerModel_decode m toks) = Inr (map Some tags)
     \<and> length tags = length toks \<and> \<not> isI (tags ! 0)
     \<and> (\<forall>i. Suc i < length toks \<longrightarrow> \<not> bio_illegal (tags ! i) (tags ! Suc i))"
proof -
  let ?tix = "crf_tag_indexer m"
  let ?T = "length ?tix"
  let ?N = "length toks"
  let ?I = "\<lambda>i. the_score (score_init (decode_scorer m toks) i)"
  let ?Tr = "\<lambda>p c. the_score (score_transition (decode_scorer m toks) p c)"
  let ?E = "\<lambda>i t. the_score (score_emission (decode_scorer m toks) (int i) (int t))"
  from nonI have T: "?tix \<noteq> []" by auto
  from toks have N0: "0 < ?N" by simp
  from crf_decode_optimal [OF toks T ne wl] obtain best where
    d: "fst (CrfNerModel_decode m toks) = Inr (map (get_object ?tix) best)"
    and l: "length best = ?N" and r: "\<forall>t\<in>set best. t < ?T"
    and o: "\<And>q. length q = ?N \<Longrightarrow> \<forall>u\<in>set q. u < ?T
              \<Longrightarrow> crf_seq_score m toks q \<le> crf_seq_score m toks best"
    by blast
  define tags where "tags = map (\<lambda>t. ?tix ! t) best"
  have mp: "map (get_object ?tix) best = map Some tags"
    unfolding tags_def using r by (simp add: get_object_def)
  have nth: "\<And>i. i < ?N \<Longrightarrow> tags ! i = ?tix ! (best ! i) \<and> best ! i < ?T"
    using l r by (simp add: tags_def)
  from nonI obtain t0 where t0: "t0 < ?T" "\<not> isI (?tix ! t0)"
    by (auto simp: in_set_conv_nth)
  have low: "real ?N * lo \<le> crf_seq_score m toks (replicate ?N t0)"
    unfolding crf_seq_score_def
  proof (rule seq_score_replicate [where I = ?I and Tr = ?Tr and E = ?E, OF N0])
    show "?I t0 = 0" using t0 by (simp add: crf_init_value)
    show "?Tr t0 t0 = 0" using t0 by (simp add: crf_transition_value bio_illegal_def)
    show "\<And>i. i < ?N \<Longrightarrow> lo \<le> ?E t0 i" using bound t0(1) by simp
  qed
  have "crf_seq_score m toks (replicate ?N t0) \<le> crf_seq_score m toks best"
    by (rule o) (simp_all add: t0(1))
  with low have lb: "real ?N * lo \<le> crf_seq_score m toks best" by simp
  have legal: "\<not> (?I (best ! 0) \<le> - 1000
      \<or> (\<exists>i. 1 \<le> i \<and> i < ?N \<and> ?Tr (best ! (i - 1)) (best ! i) \<le> - 1000))"
  proof
    assume pen: "?I (best ! 0) \<le> - 1000
      \<or> (\<exists>i. 1 \<le> i \<and> i < ?N \<and> ?Tr (best ! (i - 1)) (best ! i) \<le> - 1000)"
    have "crf_seq_score m toks best \<le> real ?N * hi - 1000"
      unfolding crf_seq_score_def
    proof (rule seq_score_penalised [where q = best and n = "?N" and I = ?I and Tr = ?Tr
          and E = ?E and hi = hi, OF l N0 _ _ _ pen])
      show "?I (best ! 0) \<le> 0" using nth [OF N0] by (simp add: crf_init_value)
      show "\<And>i. 1 \<le> i \<Longrightarrow> i < ?N \<Longrightarrow> ?Tr (best ! (i - 1)) (best ! i) \<le> 0"
      proof -
        fix i assume i: "1 \<le> i" "i < ?N"
        then have "i - 1 < ?N" by simp
        from nth [OF this] nth [OF i(2)] show "?Tr (best ! (i - 1)) (best ! i) \<le> 0"
          by (simp add: crf_transition_value)
      qed
      show "\<And>i. i < ?N \<Longrightarrow> ?E (best ! i) i \<le> hi" using bound nth by simp
    qed
    with lb have "real ?N * lo \<le> real ?N * hi - 1000" by simp
    with small show False by (simp add: algebra_simps)
  qed
  have first: "\<not> isI (tags ! 0)"
  proof
    assume "isI (tags ! 0)"
    with nth [OF N0] have "?I (best ! 0) = - 1000" by (simp add: crf_init_value)
    with legal show False by simp
  qed
  have pairs: "\<forall>i. Suc i < ?N \<longrightarrow> \<not> bio_illegal (tags ! i) (tags ! Suc i)"
  proof (intro allI impI notI)
    fix i assume i: "Suc i < ?N" and bad: "bio_illegal (tags ! i) (tags ! Suc i)"
    from i have i': "i < ?N" by simp
    from nth [OF i] nth [OF i'] bad have "?Tr (best ! i) (best ! Suc i) = - 1000"
      by (simp add: crf_transition_value)
    then have "1 \<le> Suc i \<and> Suc i < ?N \<and> ?Tr (best ! (Suc i - 1)) (best ! Suc i) \<le> - 1000"
      using i by simp
    with legal show False by blast
  qed
  have lt: "length tags = ?N" using l by (simp add: tags_def)
  from d mp have "fst (CrfNerModel_decode m toks) = Inr (map Some tags)" by simp
  with lt first pairs show ?thesis by blast
qed

text \<open>The theorem at a tag set that holds an \<open>I-\<close> tag: there both the start
  penalty (for \<open>I-PER\<close>) and the transition penalty (for \<open>O\<close> followed by
  \<open>I-PER\<close>) are at work, and the decoder answers \<open>B-PER\<close> followed by \<open>I-PER\<close>.\<close>

theorem decode_bio_legal_witness:
  "isI (crf_tag_indexer bio_crf ! 0)
   \<and> bio_illegal (crf_tag_indexer bio_crf ! 1) (crf_tag_indexer bio_crf ! 0)
   \<and> fst (CrfNerModel_decode bio_crf example_sentence) = Inr [Some ''B-PER'', Some ''I-PER'']
   \<and> (\<exists>tags. fst (CrfNerModel_decode bio_crf example_sentence) = Inr (map Some tags)
         \<and> length tags = length example_sentence \<and> \<not> isI (tags ! 0)
         \<and> (\<forall>i. Suc i < length example_sentence
               \<longrightarrow> \<not> bio_illegal (tags ! i) (tags ! Suc i)))"
proof -
  let ?sc = "decode_scorer bio_crf example_sentence"
  have e: "the_score (score_emission ?sc 0 0) = 0" "the_score (score_emission ?sc 0 1) = 0"
    "the_score (score_emission ?sc 1 0) = 0" "the_score (score_emission ?sc 1 1) = 0"
    "the_score (score_emission ?sc 2 0) = 2" "the_score (score_emission ?sc 2 1) = 0"
    by code_simp+
  have two: "\<And>i::nat. i < 2 \<Longrightarrow> i = 0 \<or> i = 1" by auto
  have three: "\<And>i::nat. i < 3 \<Longrightarrow> i = 0 \<or> i = 1 \<or> i = 2" by auto
  have lT: "length (crf_tag_indexer bio_crf) = 3" by (simp add: bio_crf_def)
  have lN: "length example_sentence = 2" by (simp add: example_sentence_def)
  have h1: "example_sentence \<noteq> []" by (simp add: example_sentence_def)
  have h2: "\<forall>tok\<in>set example_sentence. word tok \<noteq> []" by (simp add: example_sentence_def)
  have h3: "length (feature_indexer bio_crf) \<le> length (crf_feature_weights bio_crf)"
    by (simp add: bio_crf_def)
  have h4: "\<exists>tag\<in>set (crf_tag_indexer bio_crf). \<not> isI tag"
    by (simp add: bio_crf_def isI_def)
  have h5: "\<forall>i<length (crf_tag_indexer bio_crf). \<forall>t<length example_sentence.
        0 \<le> the_score (score_emission ?sc (int i) (int t))
        \<and> the_score (score_emission ?sc (int i) (int t)) \<le> 2"
    unfolding lT lN using e by (auto dest!: two three)
  have h6: "real (length example_sentence) * (2 - 0) < 1000" by (simp add: lN)
  have i1: "isI (crf_tag_indexer bio_crf ! 0)" by (simp add: bio_crf_def isI_def)
  have i2: "bio_illegal (crf_tag_indexer bio_crf ! 1) (crf_tag_indexer bio_crf ! 0)"
    by (simp add: bio_crf_def bio_illegal_def isI_def isO_def)
  have r: "fst (CrfNerModel_decode bio_crf example_sentence)
      = Inr [Some ''B-PER'', Some ''I-PER'']"
    by code_simp
  from decode_bio_legal [OF h1 h2 h3 h4 h5 h6] i1 i2 r show ?thesis by blast
qed

section \<open>Claim C7\<close>

text \<open>
  C7, as stated, fails: neither decoder rejects the empty token sequence with an
  InvalidInput condition of its own.
\<close>

theorem decode_empty_counterexample:
  "HmmNerModel_decode example_hmm [] \<noteq> Inl InvalidInput
   \<and> fst (CrfNerModel_decode example_crf []) \<noteq> Inl InvalidInput"
  by (simp add: HmmNerModel_decode_def CrfNerModel_decode_def viterbi_def
      build_feature_cache_def)

text \<open>
  C7, amended: for the empty token sequence both decoders fail, without returning a
  labeled sentence, with the ValueError that NumPy raises when the backpointer matrix
  is allocated with \<open>len(sentence_tokens) - 1 = -1\<close> columns.
\<close>

theorem decode_empty_raises_ValueError:
  "HmmNerModel_decode hmm [] = Inl ValueError
   \<and> fst (CrfNerModel_decode crf []) = Inl ValueError"
  by (simp add: HmmNerModel_decode_def CrfNerModel_decode_def viterbi_def
      build_feature_cache_def)

section \<open>The beam-search decoder\<close>

lemma foldM_fails:
  "x \<in> set xs \<Longrightarrow> (\<And>s. \<exists>e. f s x = Inl e) \<Longrightarrow> \<exists>e. foldM f s xs = Inl e"
proof (induction xs arbitrary: s)
  case Nil
  then show ?case by simp
next
  case (Cons y ys)
  show ?case
  proof (cases "f s y")
    case (Inl e)
    then show ?thesis by simp
  next
    case (Inr s')
    show ?thesis
    proof (cases "x = y")
      case True
      with Cons.prems(2) [of s] Inr show ?thesis by simp
    next
      case False
      with Cons.prems(1) have "x \<in> set ys" by simp
      from Cons.IH [OF this Cons.prems(2)] Inr show ?thesis by simp
    qed
  qed
qed

lemma foldM_invariant:
  "P s \<Longrightarrow> (\<And>s x. P s \<Longrightarrow> x \<in> set xs \<Longrightarrow> \<exists>s'. f s x = Inr s' \<and> P s')
     \<Longrightarrow> \<exists>s'. foldM f s xs = Inr s' \<and> P s'"
proof (induction xs arbitrary: s)
  case Nil
  then show ?case by simp
next
  case (Cons y ys)
  from Cons.prems(2) [OF Cons.prems(1), of y] obtain s1 where s1: "f s y = Inr s1" "P s1"
    by auto
  have "\<exists>s'. foldM f s1 ys = Inr s' \<and> P s'"
    by (rule Cons.IH [OF s1(2)]) (simp add: Cons.prems(2))
  with s1 show ?case by simp
qed

lemma Beam_add_width [simp]: "beam_width (Beam_add b elt sc) = beam_width b"
  by (simp add: Beam_add_def)

lemma Beam_add_length:
  "length (hyps (Beam_add b elt sc)) = min (beam_width b) (Suc (length (hyps b)))"
proof -
  have "length (takeWhile (\<lambda>h. sc \<le> snd h) (hyps b) @ (elt, sc)
             # dropWhile (\<lambda>h. sc \<le> snd h) (hyps b)) = Suc (length (hyps b))"
    by (metis length_Cons length_append add_Suc_right takeWhile_dropWhile_id)
  then show ?thesis by (simp add: Beam_add_def)
qed

lemma Beam_add_set:
  "set (hyps (Beam_add b elt sc)) \<subseteq> insert (elt, sc) (set (hyps b))"
proof -
  have "set (takeWhile (\<lambda>h. sc \<le> snd h) (hyps b) @ (elt, sc)
             # dropWhile (\<lambda>h. sc \<le> snd h) (hyps b)) \<subseteq> insert (elt, sc) (set (hyps b))"
    by (auto dest: set_takeWhileD set_dropWhileD)
  then show ?thesis
    unfolding Beam_add_def by (auto dest!: in_set_takeD)
qed

lemma Beam_add_ok:
  "beam_ok T b \<Longrightarrow> elt \<noteq> [] \<Longrightarrow> \<forall>t\<in>set elt. t < T \<Longrightarrow> beam_ok T (Beam_add b elt sc)"
  using Beam_add_set [of b elt sc] unfolding beam_ok_def by fastforce

lemma beam_init_length_le:
  "foldM (\<lambda>b i. bind_result (si i) (\<lambda>a. bind_result (se i) (\<lambda>e. Inr (Beam_add b [i] (a + e)))))
      b xs = Inr cb
     \<Longrightarrow> length (hyps cb) \<le> length (hyps b) + length xs"
proof (induction xs arbitrary: b)
  case Nil
  then show ?case by simp
next
  case (Cons x xs)
  from Cons.prems obtain a e where a: "si x = Inr a" and e: "se x = Inr e"
    by (cases "si x"; cases "se x") auto
  with Cons.prems have "foldM (\<lambda>b i. bind_result (si i) (\<lambda>a. bind_result (se i)
      (\<lambda>e. Inr (Beam_add b [i] (a + e))))) (Beam_add b [x] (a + e)) xs = Inr cb" by simp
  from Cons.IH [OF this] show ?case by (simp add: Beam_add_length)
qed

lemma beam_expand_out_of_range:
  assumes "0 < T" and "length es \<le> i"
  shows "beam_expand sc T tok es nb i = Inl IndexError"
proof -
  from assms(1) have up: "[0..<T] = 0 # [1..<T]" by (simp add: upt_conv_Cons)
  from assms(2) have "py_get (map fst es) (int i) = Inl IndexError"
    by (simp add: py_get_def)
  then show ?thesis unfolding beam_expand_def up by simp
qed

lemma beam_step_fails:
  assumes len: "length (hyps cb) < bs" and T: "T = 0 \<longrightarrow> hyps cb = []"
  shows "\<exists>e. beam_step sc T bs (cb, nb) tok = Inl e"
proof (cases "hyps cb = []")
  case True
  then show ?thesis by (simp add: beam_step_def get_elts_and_scores_def)
next
  case False
  with T have T0: "0 < T" by auto
  from len have mem: "length (hyps cb) \<in> set [0..<bs]" by simp
  have "\<exists>e. foldM (beam_expand sc T tok (hyps cb)) nb [0..<bs] = Inl e"
    by (rule foldM_fails [OF mem]) (simp add: beam_expand_out_of_range [OF T0])
  then show ?thesis
    using False by (auto simp: beam_step_def get_elts_and_scores_def)
qed

lemma decode_beam_fails:
  assumes N: "2 \<le> length toks" and T: "length (crf_tag_indexer m) < 9"
  shows "\<exists>e. fst (decode_beam m toks) = Inl e"
proof -
  let ?T = "length (crf_tag_indexer m)"
  obtain cr ix' where cr: "build_feature_cache toks (crf_tag_indexer m) (feature_indexer m) False
      = (cr, ix')" by (cases "build_feature_cache toks (crf_tag_indexer m) (feature_indexer m) False")
  show ?thesis
  proof (cases cr)
    case (Inl e)
    with cr show ?thesis by (simp add: decode_beam_def)
  next
    case (Inr cache)
    let ?sc = "\<lparr>tag_indexer = crf_tag_indexer m, feature_weights = crf_feature_weights m,
                feat_cache = cache\<rparr>"
    show ?thesis
    proof (cases "beam_init ?sc ?T (Beam_new 9)")
      case (Inl e)
      with cr Inr show ?thesis by (simp add: decode_beam_def)
    next
      case cb: (Inr cb)
      from cb have "length (hyps cb) \<le> length (hyps (Beam_new 9)) + length [0..<?T]"
        unfolding beam_init_def by (rule beam_init_length_le)
      then have l: "length (hyps cb) \<le> ?T" by (simp add: Beam_new_def)
      with T have l9: "length (hyps cb) < 9" by simp
      from l have T0: "?T = 0 \<longrightarrow> hyps cb = []" by auto
      from beam_step_fails [OF l9 T0] obtain e where
        e: "beam_step ?sc ?T 9 (cb, Beam_new 9) 1 = Inl e" by blast
      from N have up: "[1..<length toks] = 1 # [2..<length toks]"
        by (simp add: upt_conv_Cons numeral_2_eq_2)
      have "foldM (beam_step ?sc ?T 9) (cb, Beam_new 9) [1..<length toks] = Inl e"
        unfolding up using e by simp
      with cr Inr cb show ?thesis by (simp add: decode_beam_def)
    qed
  qed
qed

lemma py_get_last: "xs \<noteq> [] \<Longrightarrow> py_get xs (-1) = Inr (last xs)"
proof -
  assume ne: "xs \<noteq> []"
  then have l: "1 \<le> int (length xs)" by (cases xs) simp_all
  have "nat (int (length xs) + - 1) = length xs - 1" by simp
  with ne l show ?thesis by (simp add: py_get_def last_conv_nth)
qed

lemma beam_init_result:
  assumes si: "\<And>i. i < T \<Longrightarrow> \<exists>v. score_init sc i = Inr v"
    and se: "\<And>i. i < T \<Longrightarrow> \<exists>v. score_emission sc (int i) 0 = Inr v"
  shows "k \<le> T \<Longrightarrow> k \<le> w \<Longrightarrow>
     \<exists>cb. beam_init sc k (Beam_new w) = Inr cb \<and> length (hyps cb) = k \<and> beam_ok T cb
        \<and> beam_width cb = w"
proof (induction k)
  case 0
  show ?case by (simp add: beam_init_def Beam_new_def beam_ok_def)
next
  case (Suc k)
  from Suc obtain cb where cb: "beam_init sc k (Beam_new w) = Inr cb"
    "length (hyps cb) = k" "beam_ok T cb" "beam_width cb = w" by auto
  from Suc.prems have kT: "k < T" by simp
  from si [OF kT] obtain a where a: "score_init sc k = Inr a" by blast
  from se [OF kT] obtain e where e: "score_emission sc (int k) 0 = Inr e" by blast
  have "beam_init sc (Suc k) (Beam_new w) = Inr (Beam_add cb [k] (a + e))"
    using cb(1) a e by (simp add: beam_init_def foldM_append)
  moreover have "length (hyps (Beam_add cb [k] (a + e))) = Suc k"
    using cb(2,4) Suc.prems by (simp add: Beam_add_length)
  moreover have "beam_ok T (Beam_add cb [k] (a + e))"
    using cb(3) kT by (intro Beam_add_ok) simp_all
  ultimately show ?case using cb(4) by simp
qed

lemma beam_expand_succeeds:
  assumes i: "i < length es"
    and ok: "\<forall>h\<in>set es. fst h \<noteq> [] \<and> (\<forall>t\<in>set (fst h). t < T)"
    and st: "\<And>p c. p < T \<Longrightarrow> c < T \<Longrightarrow> \<exists>v. score_transition sc p c = Inr v"
    and se: "\<And>c. c < T \<Longrightarrow> \<exists>v. score_emission sc (int c) (int tok) = Inr v"
  shows "\<exists>nb'. beam_expand sc T tok es nb i = Inr nb'"
proof -
  from i have "es ! i \<in> set es" by simp
  with ok have ne: "fst (es ! i) \<noteq> []" and all: "\<forall>t\<in>set (fst (es ! i)). t < T" by auto
  from ne all have lt: "last (fst (es ! i)) < T" by simp
  have "\<exists>s'. foldM (\<lambda>nb current_i.
        bind_result (py_get (map fst es) (int i)) (\<lambda>tags_i.
        bind_result (py_get (map snd es) (int i)) (\<lambda>score_i.
        bind_result (py_get tags_i (-1)) (\<lambda>last_tag.
        bind_result (score_transition sc last_tag current_i) (\<lambda>tr.
        bind_result (score_emission sc (int current_i) (int tok)) (\<lambda>em.
        Inr (Beam_add nb (tags_i @ [current_i]) (score_i + tr + em))))))))
       nb [0..<T] = Inr s' \<and> True"
  proof (rule foldM_invariant)
    show True by simp
  next
    fix s :: Beam and c assume "c \<in> set [0..<T]"
    then have c: "c < T" by simp
    from st [OF lt c] obtain tr where tr: "score_transition sc (last (fst (es ! i))) c = Inr tr"
      by blast
    from se [OF c] obtain em where em: "score_emission sc (int c) (int tok) = Inr em" by blast
    show "\<exists>s'. bind_result (py_get (map fst es) (int i)) (\<lambda>tags_i.
        bind_result (py_get (map snd es) (int i)) (\<lambda>score_i.
        bind_result (py_get tags_i (-1)) (\<lambda>last_tag.
        bind_result (score_transition sc last_tag c) (\<lambda>tr.
        bind_result (score_emission sc (int c) (int tok)) (\<lambda>em.
        Inr (Beam_add s (tags_i @ [c]) (score_i + tr + em))))))) = Inr s' \<and> True"
      using i by (simp add: py_get_nat py_get_last [OF ne] tr em)
  qed
  then show ?thesis by (simp add: beam_expand_def)
qed

lemma beam_step_IndexError:
  assumes len: "length (hyps cb) = T" and T: "0 < T" "T < bs" and ok: "beam_ok T cb"
    and st: "\<And>p c. p < T \<Longrightarrow> c < T \<Longrightarrow> \<exists>v. score_transition sc p c = Inr v"
    and se: "\<And>c. c < T \<Longrightarrow> \<exists>v. score_emission sc (int c) (int tok) = Inr v"
  shows "beam_step sc T bs (cb, nb) tok = Inl IndexError"
proof -
  let ?es = "hyps cb"
  from len T have ne: "?es \<noteq> []" by auto
  from T have up: "[0..<bs] = [0..<T] @ T # [Suc T..<bs]"
    by (metis le_add1 less_imp_add_positive upt_add_eq_append upt_conv_Cons zero_le add_0)
  have "\<exists>s'. foldM (beam_expand sc T tok ?es) nb [0..<T] = Inr s' \<and> True"
  proof (rule foldM_invariant)
    show True by simp
  next
    fix s :: Beam and i assume "i \<in> set [0..<T]"
    then have il: "i < length ?es" using len by simp
    have okes: "\<forall>h\<in>set ?es. fst h \<noteq> [] \<and> (\<forall>t\<in>set (fst h). t < T)"
      using ok by (simp add: beam_ok_def)
    have "\<exists>nb'. beam_expand sc T tok ?es s i = Inr nb'"
      by (rule beam_expand_succeeds [OF il okes st se])
    then show "\<exists>s'. beam_expand sc T tok ?es s i = Inr s' \<and> True" by simp
  qed
  then obtain nb' where nb': "foldM (beam_expand sc T tok ?es) nb [0..<T] = Inr nb'" by blast
  have "beam_expand sc T tok ?es nb' T = Inl IndexError"
    by (rule beam_expand_out_of_range [OF T(1)]) (simp add: len)
  then have "foldM (beam_expand sc T tok ?es) nb [0..<bs] = Inl IndexError"
    unfolding up foldM_append nb' by simp
  with ne show ?thesis by (simp add: beam_step_def get_elts_and_scores_def)
qed

lemma decode_beam_IndexError:
  assumes N: "2 \<le> length toks" and T: "0 < length (crf_tag_indexer m)"
    "length (crf_tag_indexer m) < 9"
    and ne: "\<forall>tok\<in>set toks. word tok \<noteq> []"
    and wl: "length (feature_indexer m) \<le> length (crf_feature_weights m)"
  shows "fst (decode_beam m toks) = Inl IndexError"
proof -
  let ?T = "length (crf_tag_indexer m)"
  let ?sc = "decode_scorer m toks"
  from N have N0: "0 < length toks" and N1: "1 < length toks" by linarith+
  have se0: "\<And>i. i < ?T \<Longrightarrow> \<exists>v. score_emission ?sc (int i) 0 = Inr v"
    using crf_potentials_defined(3) [OF ne wl _ N0] by simp
  have se1: "\<And>i. i < ?T \<Longrightarrow> \<exists>v. score_emission ?sc (int i) (int 1) = Inr v"
    using crf_potentials_defined(3) [OF ne wl _ N1] by simp
  from beam_init_result [of ?T ?sc ?T 9, OF crf_potentials_defined(1) [OF ne wl] se0] T
  obtain cb where cb: "beam_init ?sc ?T (Beam_new 9) = Inr cb" "length (hyps cb) = ?T"
    "beam_ok ?T cb" by auto
  have step: "beam_step ?sc ?T 9 (cb, Beam_new 9) 1 = Inl IndexError"
    using beam_step_IndexError [OF cb(2) T cb(3) crf_potentials_defined(2) [OF ne wl] se1]
    by simp
  from N have up: "[1..<length toks] = 1 # [2..<length toks]"
    by (simp add: upt_conv_Cons numeral_2_eq_2)
  have "foldM (beam_step ?sc ?T 9) (cb, Beam_new 9) [1..<length toks] = Inl IndexError"
    unfolding up using step by simp
  then show ?thesis
    using cb(1)
    by (simp add: decode_beam_def decode_scorer_def build_feature_cache_ok [OF ne] Let_def)
qed

lemma decode_beam_frame: "snd (decode_beam m toks) = m"
proof -
  obtain cr ix' where cr: "build_feature_cache toks (crf_tag_indexer m) (feature_indexer m) False
      = (cr, ix')" by (cases "build_feature_cache toks (crf_tag_indexer m) (feature_indexer m) False")
  from build_feature_cache_frame [of toks "crf_tag_indexer m" "feature_indexer m"] cr
  have "ix' = feature_indexer m" by simp
  with cr show ?thesis by (cases cr) (simp_all add: decode_beam_def Let_def)
qed

lemma CrfNerModel_decode_frame: "snd (CrfNerModel_decode m toks) = m"
proof -
  obtain cr ix' where cr: "build_feature_cache toks (crf_tag_indexer m) (feature_indexer m) False
      = (cr, ix')" by (cases "build_feature_cache toks (crf_tag_indexer m) (feature_indexer m) False")
  from build_feature_cache_frame [of toks "crf_tag_indexer m" "feature_indexer m"] cr
  have "ix' = feature_indexer m" by simp
  with cr show ?thesis by (cases cr) (simp_all add: CrfNerModel_decode_def Let_def)
qed

lemma extract_training_mode_registers:
  "snd (extract_emission_features example_sentence 0 ''O'' [] True) \<noteq> []"
  by code_simp

section \<open>Claim C9\<close>

text \<open>
  C9: \<open>CrfNerModel.decode\<close> and \<open>CrfNerModel.decode_beam\<close> leave the model as they
  found it, whatever the token sequence and whether or not they raise: tag indexer,
  feature indexer and weight vector are the same after the call. Feature extraction
  with \<open>add_to_indexer=False\<close> returns the feature indexer unchanged and yields only
  ids that the indexer already has (a feature string that is not registered is dropped).
\<close>

theorem decode_leaves_model_unchanged:
  "snd (CrfNerModel_decode m sentence_tokens) = m
   \<and> snd (decode_beam m sentence_tokens) = m
   \<and> snd (extract_emission_features sentence_tokens word_index tag ix False) = ix
   \<and> set (features_of sentence_tokens ix word_index tag) \<subseteq> {..<length ix}"
proof -
  have "set (features_of sentence_tokens ix word_index tag) \<subseteq> {..<length ix}"
  proof (cases "word_index < length sentence_tokens \<and> word (sentence_tokens ! word_index) \<noteq> []")
    case True
    with features_of_bound [of word_index sentence_tokens ix tag] show ?thesis by auto
  next
    case False
    then have "fst (extract_emission_features sentence_tokens word_index tag ix False)
        = Inl IndexError"
      by (auto simp: extract_emission_features_def Let_def split: prod.splits)
    then show ?thesis by (simp add: features_of_def)
  qed
  then show ?thesis
    by (simp add: CrfNerModel_decode_frame decode_beam_frame extract_False_frame)
qed

section \<open>Claim C10\<close>

text \<open>
  C10: for a token sequence of at least 2 tokens and a tag set of size \<open>T < 9\<close>,
  \<open>CrfNerModel.decode_beam\<close> fails instead of returning a labeled sentence. The first
  expansion step reads \<open>tags[i]\<close> for \<open>i = 0..8\<close> while the beam holds only the
  \<open>T\<close> hypotheses of the initialisation: when there is at least one tag and the scorer
  does not raise (no empty word, a weight for every registered feature), the failure is
  the IndexError of \<open>tags[T]\<close>.
\<close>

theorem decode_beam_small_tag_set_fails:
  "(2 \<le> length sentence_tokens \<and> length (crf_tag_indexer m) < 9
      \<longrightarrow> (\<exists>e. fst (decode_beam m sentence_tokens) = Inl e))
   \<and> (2 \<le> length sentence_tokens \<and> 0 < length (crf_tag_indexer m)
        \<and> length (crf_tag_indexer m) < 9
        \<and> (\<forall>tok\<in>set sentence_tokens. word tok \<noteq> [])
        \<and> length (feature_indexer m) \<le> length (crf_feature_weights m)
      \<longrightarrow> fst (decode_beam m sentence_tokens) = Inl IndexError)"
  using decode_beam_fails [of sentence_tokens m] decode_beam_IndexError [of sentence_tokens m]
  by blast

theorem decode_beam_small_tag_set_fails_witness:
  "2 \<le> length example_sentence \<and> length (crf_tag_indexer example_crf) < 9
   \<and> (\<exists>e. fst (decode_beam example_crf example_sentence) = Inl e)
   \<and> fst (decode_beam example_crf example_sentence) = Inl IndexError"
proof -
  have h: "2 \<le> length example_sentence \<and> 0 < length (crf_tag_indexer example_crf)
        \<and> length (crf_tag_indexer example_crf) < 9
        \<and> (\<forall>tok\<in>set example_sentence. word tok \<noteq> [])
        \<and> length (feature_indexer example_crf) \<le> length (crf_feature_weights example_crf)"
    by (simp add: example_sentence_def example_crf_def)
  from decode_beam_small_tag_set_fails [of example_sentence example_crf] h
  show ?thesis by blast
qed

section \<open>The forward and backward passes\<close>



















section \<open>Claim C2\<close>



section \<open>Claim C3\<close>











section \<open>Claim C4\<close>

text \<open>
  C4 describes the beam search that \<open>decode_beam\<close> is meant to perform; the code does
  not return a tag sequence with one tag per token on the two-tag model and the
  two-token sentence of the examples, where it raises IndexError.
\<close>

theorem decode_beam_example_raises:
  "fst (decode_beam example_crf example_sentence) = Inl IndexError"
  by (rule decode_beam_IndexError) (simp_all add: example_sentence_def example_crf_def)

section \<open>Claim C6\<close>

lemma add_and_get_index_set:
  "set (snd (add_and_get_index ix obj)) = insert obj (set ix)"
  by (auto simp: add_and_get_index_def index_of_absent)

lemma add_and_get_index_known:
  assumes "obj \<in> set ix"
  shows "add_and_get_index ix obj = (nat (index_of ix obj), ix)"
    and "nat (index_of ix obj) < length ix"
  using assms index_of_present [OF assms]
  by (simp_all add: add_and_get_index_def index_of_absent)

lemma get_word_index_key:
  "get_word_index ix wc w = add_and_get_index ix (word_key wc w)"
  by (simp add: get_word_index_def word_key_def count_below_threshold)

lemma fold_words_set:
  "set (fold (\<lambda>token ix. snd (get_word_index ix wc (word token))) toks ix)
     = set ix \<union> (\<lambda>tok. word_key wc (word tok)) ` set toks"
  by (induction toks arbitrary: ix) (auto simp: get_word_index_key add_and_get_index_set)

lemma fold_tags_set:
  "set (fold (\<lambda>tag ix. snd (add_and_get_index ix tag)) tags ix) = set ix \<union> set tags"
  by (induction tags arbitrary: ix) (auto simp: add_and_get_index_set)

lemma fold_index_sentence_sets:
  "set (fst (fold (index_sentence wc) sentences ixs))
     = set (fst ixs) \<union> (\<Union>s\<in>set sentences. (\<lambda>tok. word_key wc (word tok)) ` set (tokens s))
   \<and> set (snd (fold (index_sentence wc) sentences ixs))
     = set (snd ixs) \<union> (\<Union>s\<in>set sentences. set (get_bio_tags s))"
proof (induction sentences arbitrary: ixs)
  case Nil
  show ?case by simp
next
  case (Cons s sentences)
  have a: "set (fst (index_sentence wc s ixs))
      = set (fst ixs) \<union> (\<lambda>tok. word_key wc (word tok)) ` set (tokens s)"
    by (simp add: index_sentence_def fold_words_set)
  have b: "set (snd (index_sentence wc s ixs)) = set (snd ixs) \<union> set (get_bio_tags s)"
    by (simp add: index_sentence_def fold_tags_set)
  from Cons.IH [of "index_sentence wc s ixs"] a b show ?case by auto
qed

lemma index_corpus_contains:
  shows "''UNK'' \<in> set (fst (index_corpus wc sentences))"
    and "s \<in> set sentences \<Longrightarrow> tok \<in> set (tokens s)
           \<Longrightarrow> word_key wc (word tok) \<in> set (fst (index_corpus wc sentences))"
    and "s \<in> set sentences \<Longrightarrow> tag \<in> set (get_bio_tags s)
           \<Longrightarrow> tag \<in> set (snd (index_corpus wc sentences))"
proof -
  note sets = fold_index_sentence_sets [of wc sentences "(snd (add_and_get_index [] ''UNK''), [])"]
  have u: "set (snd (add_and_get_index [] ''UNK'')) = {''UNK''}"
    by (simp add: add_and_get_index_set)
  from sets u show "''UNK'' \<in> set (fst (index_corpus wc sentences))"
    by (simp add: index_corpus_def)
  from sets show "s \<in> set sentences \<Longrightarrow> tok \<in> set (tokens s)
           \<Longrightarrow> word_key wc (word tok) \<in> set (fst (index_corpus wc sentences))"
    by (auto simp: index_corpus_def)
  from sets show "s \<in> set sentences \<Longrightarrow> tag \<in> set (get_bio_tags s)
           \<Longrightarrow> tag \<in> set (snd (index_corpus wc sentences))"
    by (auto simp: index_corpus_def)
qed

lemma positive_rows_update:
  assumes pos: "positive_rows m" and r: "r < length m" and c: "c < length (m ! r)"
  shows "positive_rows (m[r := (m ! r)[c := m ! r ! c + 1]])"
proof -
  from r have "m ! r \<in> set m" by simp
  with pos have row: "m ! r \<noteq> []" "\<forall>x\<in>set (m ! r). 0 < x"
    unfolding positive_rows_def by blast+
  from row(2) c have v: "0 < m ! r ! c" by simp
  have new: "(m ! r)[c := m ! r ! c + 1] \<noteq> []
      \<and> (\<forall>x\<in>set ((m ! r)[c := m ! r ! c + 1]). 0 < x)"
  proof
    show "(m ! r)[c := m ! r ! c + 1] \<noteq> []" using row(1) by simp
    show "\<forall>x\<in>set ((m ! r)[c := m ! r ! c + 1]). 0 < x"
    proof
      fix x assume "x \<in> set ((m ! r)[c := m ! r ! c + 1])"
      then have "x \<in> insert (m ! r ! c + 1) (set (m ! r))"
        using set_update_subset_insert by fastforce
      with row(2) v show "0 < x" by auto
    qed
  qed
  show ?thesis
    unfolding positive_rows_def
  proof
    fix row assume "row \<in> set (m[r := (m ! r)[c := m ! r ! c + 1]])"
    then have "row \<in> insert ((m ! r)[c := m ! r ! c + 1]) (set m)"
      using set_update_subset_insert by fastforce
    with new pos show "row \<noteq> [] \<and> (\<forall>c\<in>set row. 0 < c)"
      by (auto simp: positive_rows_def)
  qed
qed

lemma row_lengths_update:
  assumes "\<forall>row\<in>set m. length row = n" and "r < length m"
  shows "\<forall>row\<in>set (m[r := (m ! r)[c := v]]). length row = n"
proof
  fix row assume "row \<in> set (m[r := (m ! r)[c := v]])"
  then have "row \<in> insert ((m ! r)[c := v]) (set m)"
    using set_update_subset_insert by fastforce
  moreover from assms(2) have "m ! r \<in> set m" by simp
  ultimately show "length row = n" using assms(1) by auto
qed

lemma np_inc2_ok:
  assumes "r < length m" and "c < length (m ! r)"
  shows "np_inc2 m r c = Inr (m[r := (m ! r)[c := m ! r ! c + 1]])"
  using assms by (simp add: np_inc2_def)

lemma count_position_step:
  assumes inv: "pass_inv tix wix st" and i: "i < length sentence"
    and tags: "\<forall>tag\<in>set (get_bio_tags sentence). tag \<in> set tix"
    and words: "\<forall>tok\<in>set (tokens sentence). word_key wc (word tok) \<in> set wix"
  shows "\<exists>st'. count_position wc sentence st i = Inr st' \<and> pass_inv tix wix st'"
proof -
  let ?bio = "get_bio_tags sentence"
  let ?tag = "?bio ! i"
  let ?key = "word_key wc (word (tokens sentence ! i))"
  let ?ti = "nat (index_of tix ?tag)"
  let ?wi = "nat (index_of wix ?key)"
  from inv have sh: "c_tag_indexer st = tix" "c_word_indexer st = wix"
    "length (init_counts st) = length tix"
    "length (transition_counts st) = length tix"
    "\<forall>row\<in>set (transition_counts st). length row = length tix"
    "length (emission_counts st) = length tix"
    "\<forall>row\<in>set (emission_counts st). length row = length wix"
    and ptr: "positive_rows (transition_counts st)"
    and pem: "positive_rows (emission_counts st)"
    by (simp_all add: pass_inv_def counts_shape_def)
  from i have tagm: "?tag \<in> set tix" using tags by (simp add: get_bio_tags_def)
  from i have keym: "?key \<in> set wix" using words by (simp add: tokens_def)
  note t1 = add_and_get_index_known [OF tagm]
  note w1 = add_and_get_index_known [OF keym]
  from t1(2) sh(6) have r1: "?ti < length (emission_counts st)" by simp
  then have "emission_counts st ! ?ti \<in> set (emission_counts st)" by simp
  with sh(7) w1(2) have c1: "?wi < length (emission_counts st ! ?ti)" by simp
  let ?em = "(emission_counts st)[?ti := (emission_counts st ! ?ti)[?wi := emission_counts st ! ?ti ! ?wi + 1]]"
  note e1 = np_inc2_ok [OF r1 c1]
  have pem': "positive_rows ?em" by (rule positive_rows_update [OF pem r1 c1])
  have lem': "length ?em = length tix" using sh(6) by simp
  have rem': "\<forall>row\<in>set ?em. length row = length wix"
    by (rule row_lengths_update [OF sh(7) r1])
  show ?thesis
  proof (cases "i = 0")
    case True
    let ?st' = "st\<lparr>c_tag_indexer := tix, c_word_indexer := wix, emission_counts := ?em,
        init_counts := (init_counts st)[?ti := init_counts st ! ?ti + 1]\<rparr>"
    have ii: "np_inc (init_counts st) ?ti
        = Inr ((init_counts st)[?ti := init_counts st ! ?ti + 1])"
      using t1(2) sh(3) by (simp add: np_inc_def)
    have "count_position wc sentence st i = Inr ?st'"
      unfolding count_position_def Let_def sh(1,2) t1(1) get_word_index_key w1(1) prod.case
        e1 bind_result_Inr ii
      using True by simp
    moreover have "pass_inv tix wix ?st'"
      using sh ptr pem' lem' rem' by (simp add: pass_inv_def counts_shape_def)
    ultimately show ?thesis by blast
  next
    case False
    let ?prev = "?bio ! (i - 1)"
    let ?pi = "nat (index_of tix ?prev)"
    from i have prevm: "?prev \<in> set tix" using tags by (simp add: get_bio_tags_def)
    note p1 = add_and_get_index_known [OF prevm]
    from p1(2) sh(4) have r2: "?pi < length (transition_counts st)" by simp
    then have "transition_counts st ! ?pi \<in> set (transition_counts st)" by simp
    with sh(5) t1(2) have c2: "?ti < length (transition_counts st ! ?pi)" by simp
    let ?tr = "(transition_counts st)[?pi := (transition_counts st ! ?pi)[?ti := transition_counts st ! ?pi ! ?ti + 1]]"
    note e2 = np_inc2_ok [OF r2 c2]
    have ptr': "positive_rows ?tr" by (rule positive_rows_update [OF ptr r2 c2])
    have ltr': "length ?tr = length tix" using sh(4) by simp
    have rtr': "\<forall>row\<in>set ?tr. length row = length tix"
      by (rule row_lengths_update [OF sh(5) r2])
    let ?st' = "st\<lparr>c_tag_indexer := tix, c_word_indexer := wix, emission_counts := ?em,
        transition_counts := ?tr\<rparr>"
    have "count_position wc sentence st i = Inr ?st'"
      unfolding count_position_def Let_def sh(1,2) t1(1) get_word_index_key w1(1) prod.case
        e1 bind_result_Inr p1(1) e2
      using False by simp
    moreover have "pass_inv tix wix ?st'"
      using sh ptr' pem' lem' rem' ltr' rtr' by (simp add: pass_inv_def counts_shape_def)
    ultimately show ?thesis by blast
  qed
qed

lemma count_pass_result:
  assumes inv: "pass_inv tix wix st0"
    and tags: "\<forall>s\<in>set sentences. \<forall>tag\<in>set (get_bio_tags s). tag \<in> set tix"
    and words: "\<forall>s\<in>set sentences. \<forall>tok\<in>set (tokens s). word_key wc (word tok) \<in> set wix"
  shows "\<exists>st. foldM (\<lambda>st sentence. foldM (count_position wc sentence) st [0..<length sentence])
              st0 sentences = Inr st \<and> pass_inv tix wix st"
proof (rule foldM_invariant [where P = "pass_inv tix wix", OF inv])
  fix st :: hmm_counts and sentence
  assume st: "pass_inv tix wix st" and s: "sentence \<in> set sentences"
  show "\<exists>s'. foldM (count_position wc sentence) st [0..<length sentence] = Inr s'
          \<and> pass_inv tix wix s'"
  proof (rule foldM_invariant [where P = "pass_inv tix wix", OF st])
    fix st1 :: hmm_counts and i
    assume st1: "pass_inv tix wix st1" and "i \<in> set [0..<length sentence]"
    then have i: "i < length sentence" by simp
    from tags words s have t: "\<forall>tag\<in>set (get_bio_tags sentence). tag \<in> set tix"
      and w: "\<forall>tok\<in>set (tokens sentence). word_key wc (word tok) \<in> set wix" by blast+
    show "\<exists>s'. count_position wc sentence st1 i = Inr s' \<and> pass_inv tix wix s'"
      by (rule count_position_step [OF st1 i t w])
  qed
qed




lemma positive_rows_replicate:
  "0 < c \<Longrightarrow> (0 < n \<longrightarrow> 0 < k) \<Longrightarrow> positive_rows (replicate n (replicate k c))"
  by (auto simp: positive_rows_def)


lemma train_hmm_model_unfold:
  "\<exists>st. pass_inv (snd (index_corpus (count_words sentences) sentences))
           (fst (index_corpus (count_words sentences) sentences)) st
     \<and> (\<forall>sil. train_hmm_model sentences sil
           = bind_result
               (if sil then Inr (c_word_indexer st)
                else debug_prints (c_word_indexer st)
                       (length (fst (index_corpus (count_words sentences) sentences))))
               (\<lambda>wix. Inr \<lparr>hmm_tag_indexer = c_tag_indexer st, word_indexer = wix,
                  init_log_probs = normalize_log (init_counts st),
                  transition_log_probs = map normalize_log (transition_counts st),
                  emission_log_probs = map normalize_log (emission_counts st)\<rparr>))"
proof -
  let ?wc = "count_words sentences"
  let ?ixs = "index_corpus ?wc sentences"
  let ?wix = "fst ?ixs"
  let ?tix = "snd ?ixs"
  let ?st0 = "\<lparr>c_tag_indexer = ?tix, c_word_indexer = ?wix,
                 init_counts = replicate (length ?tix) 0.001,
                 transition_counts = replicate (length ?tix) (replicate (length ?tix) 0.001),
                 emission_counts = replicate (length ?tix) (replicate (length ?wix) 0.001)\<rparr>"
  from index_corpus_contains(1) [of ?wc sentences] have V: "0 < length ?wix"
    by (cases ?wix) auto
  have inv0: "pass_inv ?tix ?wix ?st0"
    using V by (simp add: pass_inv_def counts_shape_def positive_rows_replicate)
  have tags: "\<forall>s\<in>set sentences. \<forall>tag\<in>set (get_bio_tags s). tag \<in> set ?tix"
    using index_corpus_contains(3) by blast
  have words: "\<forall>s\<in>set sentences. \<forall>tok\<in>set (tokens s). word_key ?wc (word tok) \<in> set ?wix"
    using index_corpus_contains(2) by blast
  from count_pass_result [OF inv0 tags words] obtain st where
    r: "foldM (\<lambda>st sentence. foldM (count_position ?wc sentence) st [0..<length sentence])
              ?st0 sentences = Inr st"
    and inv: "pass_inv ?tix ?wix st" by blast
  have "train_hmm_model sentences sil
      = bind_result (if sil then Inr (c_word_indexer st)
                     else debug_prints (c_word_indexer st) (length ?wix))
          (\<lambda>wix. Inr \<lparr>hmm_tag_indexer = c_tag_indexer st, word_indexer = wix,
              init_log_probs = normalize_log (init_counts st),
              transition_log_probs = map normalize_log (transition_counts st),
              emission_log_probs = map normalize_log (emission_counts st)\<rparr>)"
    for sil
    unfolding train_hmm_model_def Let_def r bind_result_Inr ..
  with inv show ?thesis by blast
qed


lemma train_hmm_model_not_silent_raises:
  "train_hmm_model example_corpus False = Inl IndexError"
proof -
  let ?ixs = "index_corpus (count_words example_corpus) example_corpus"
  have ix: "?ixs = ([''UNK''], [''B-PER'', ''O''])" by code_simp
  from train_hmm_model_unfold [of example_corpus] obtain st where
    inv: "pass_inv (snd ?ixs) (fst ?ixs) st"
    and unfold: "\<And>sil. train_hmm_model example_corpus sil
           = bind_result
               (if sil then Inr (c_word_indexer st)
                else debug_prints (c_word_indexer st) (length (fst ?ixs)))
               (\<lambda>wix. Inr \<lparr>hmm_tag_indexer = c_tag_indexer st, word_indexer = wix,
                  init_log_probs = normalize_log (init_counts st),
                  transition_log_probs = map normalize_log (transition_counts st),
                  emission_log_probs = map normalize_log (emission_counts st)\<rparr>)"
    by blast
  from inv have w: "c_word_indexer st = [''UNK'']"
    by (simp add: pass_inv_def counts_shape_def ix)
  have d: "debug_prints [''UNK''] 1 = Inl IndexError"
    by (simp add: debug_prints_def add_and_get_index_def)
  show ?thesis unfolding unfold w ix using d by simp
qed



section \<open>Claim C8\<close>

text \<open>
  C8: for every word counter, word and indexer, \<open>get_word_index\<close> answers the index of
  the \<open>UNK\<close> sentinel when the word's corpus count is below 2 (the word occurs at most
  once or not at all), registering the sentinel when the indexer lacks it and never the
  word; when the count is 2 or more it answers the word's own index, registering the word
  if needed. For a word other than the sentinel string itself the answer is the
  sentinel's index exactly when the count is below 2.
\<close>

theorem get_word_index_threshold:
  assumes "get_word_index ix wc w = (i, ix')"
  shows "(wc w < 2 \<longrightarrow> int i = index_of ix' ''UNK'' \<and> get_object ix' i = Some ''UNK''
            \<and> ix' = (if ''UNK'' \<in> set ix then ix else ix @ [''UNK'']))
       \<and> (2 \<le> wc w \<longrightarrow> int i = index_of ix' w \<and> get_object ix' i = Some w
            \<and> ix' = (if w \<in> set ix then ix else ix @ [w]))
       \<and> (w \<noteq> ''UNK'' \<longrightarrow> (int i = index_of ix' ''UNK'') = (wc w < 2))
       \<and> (wc w = 1 \<longrightarrow> w \<noteq> ''UNK'' \<longrightarrow> w \<notin> set ix \<longrightarrow> w \<notin> set ix')"
proof (cases "wc w < 2")
  case True
  with assms have a: "add_and_get_index ix ''UNK'' = (i, ix')"
    by (simp add: get_word_index_def count_below_threshold)
  note r = add_and_get_index_result [OF a]
  from r(1,2) have "get_object ix' i = Some ''UNK''" by (simp add: get_object_def)
  with True r(3,4) show ?thesis by auto
next
  case False
  with assms have a: "add_and_get_index ix w = (i, ix')"
    by (simp add: get_word_index_def count_below_threshold)
  note r = add_and_get_index_result [OF a]
  from r(1,2) have g: "get_object ix' i = Some w" by (simp add: get_object_def)
  have "w \<noteq> ''UNK'' \<Longrightarrow> int i \<noteq> index_of ix' ''UNK''"
  proof
    assume ne: "w \<noteq> ''UNK''" and eq: "int i = index_of ix' ''UNK''"
    then have "index_of ix' ''UNK'' \<noteq> -1" by simp
    then have "''UNK'' \<in> set ix'" by (simp add: index_of_absent)
    from index_of_present [OF this] eq [symmetric] have "ix' ! i = ''UNK''" by simp
    with r(2) ne show False by simp
  qed
  with False r(3,4) g show ?thesis by auto
qed

theorem get_word_index_threshold_witness:
  "get_word_index [''UNK'', ''the''] (\<lambda>w. if w = ''the'' then 2 else if w = ''cat'' then 1 else 0)
     ''cat'' = (0, [''UNK'', ''the''])
   \<and> int 0 = index_of [''UNK'', ''the''] ''UNK''
   \<and> ''cat'' \<notin> set [''UNK'', ''the'']"
proof -
  have e: "get_word_index [''UNK'', ''the'']
      (\<lambda>w. if w = ''the'' then 2 else if w = ''cat'' then 1 else 0) ''cat''
      = (0, [''UNK'', ''the''])"
    by (simp add: get_word_index_def add_and_get_index_def)
  from get_word_index_threshold [OF e] e show ?thesis by simp
qed

end
